theory Spec2Isabelle
  imports Main "HOL-Library.Word" "HOL-Library.Multiset"
begin

unbundle bit_operations_syntax

section \<open>Data model\<close>

text \<open>
  The element type of \<^verbatim>\<open>multiset.hpp\<close> is
  \<^verbatim>\<open>std::variant<std::string, std::shared_ptr<MultiSet>>\<close>.  A shared pointer is
  modelled by the address it holds together with the multiset stored there at the moment
  of the call (none of the functions below writes through such a pointer).  The address
  is kept because \<^verbatim>\<open>std::shared_ptr::operator==\<close> compares addresses, and the
  equality of \<^verbatim>\<open>std::unordered_map\<close> reaches it through
  \<^verbatim>\<open>std::variant::operator==\<close>.  Null pointers are left out: the source
  dereferences every pointer it meets.

  \<^verbatim>\<open>int\<close> is a 32-bit word read in two's complement (\<open>sint\<close>) and
  \<^verbatim>\<open>std::size_t\<close> a 64-bit word.  Signed overflow, undefined in C++, wraps here.

  The only field of \<^verbatim>\<open>class MultiSet\<close> is
  \<^verbatim>\<open>std::unordered_map<Element, int, VariantHash, VariantEqual> elements_\<close>.
  It is modelled by the list of its entries in iteration order.  The standard leaves that
  order open, so every statement below is made for an arbitrary order of the entries.
\<close>

type_synonym addr = nat
type_synonym count = "32 word"
type_synonym size_t = "64 word"

datatype Element = Label string | Nested addr "(Element \<times> count) list"

type_synonym MultiSet = "(Element \<times> count) list"

subsection \<open>The operations of \<^verbatim>\<open>std::unordered_map\<close> the source uses\<close>

text \<open>
  \<open>umap_find eq m e\<close> is \<^verbatim>\<open>m.find(e)\<close>: the entry whose key the key equality
  \<open>eq\<close> accepts for \<open>e\<close>.  The hash table only looks into the bucket of the hash of
  \<open>e\<close>; the hash functor of the source gives equal keys equal hashes (lemma
  \<open>VariantHash_respects_VariantEqual\<close> below), so the bucket holds the entry whenever
  the map does.  \<open>umap_put eq m e v\<close> is \<^verbatim>\<open>m[e] = v\<close> and also the write
  through an iterator returned by \<^verbatim>\<open>m.find(e)\<close>; a new key goes to the end of
  the list.  \<open>umap_erase eq m e\<close> is \<^verbatim>\<open>m.erase(m.find(e))\<close>.
\<close>

fun umap_find :: "('k \<Rightarrow> 'k \<Rightarrow> bool) \<Rightarrow> ('k \<times> 'v) list \<Rightarrow> 'k \<Rightarrow> ('k \<times> 'v) option" where
  "umap_find eq [] e = None"
| "umap_find eq (x # m) e = (if eq e (fst x) then Some x else umap_find eq m e)"

fun umap_put :: "('k \<Rightarrow> 'k \<Rightarrow> bool) \<Rightarrow> ('k \<times> 'v) list \<Rightarrow> 'k \<Rightarrow> 'v \<Rightarrow> ('k \<times> 'v) list" where
  "umap_put eq [] e v = [(e, v)]"
| "umap_put eq (x # m) e v = (if eq e (fst x) then (fst x, v) # m else x # umap_put eq m e v)"

fun umap_erase :: "('k \<Rightarrow> 'k \<Rightarrow> bool) \<Rightarrow> ('k \<times> 'v) list \<Rightarrow> 'k \<Rightarrow> ('k \<times> 'v) list" where
  "umap_erase eq [] e = []"
| "umap_erase eq (x # m) e = (if eq e (fst x) then m else x # umap_erase eq m e)"

lemma umap_find_cong [fundef_cong]:
  "m = m' \<Longrightarrow> e = e' \<Longrightarrow> (\<And>x. x \<in> set m' \<Longrightarrow> eq e' (fst x) = eq' e' (fst x))
   \<Longrightarrow> umap_find eq m e = umap_find eq' m' e'"
  by (induction m' arbitrary: m) auto

subsection \<open>Element identity: \<^verbatim>\<open>VariantEqual\<close> and \<^verbatim>\<open>MultiSet::operator==\<close>\<close>

text \<open>
  \<open>variant_eq\<close> is \<^verbatim>\<open>operator==\<close> of \<^verbatim>\<open>std::variant\<close>: the same
  alternative, and then \<^verbatim>\<open>operator==\<close> of the alternative, which for
  \<^verbatim>\<open>std::shared_ptr\<close> compares the stored addresses.
\<close>

fun variant_eq :: "Element \<Rightarrow> Element \<Rightarrow> bool" where
  "variant_eq (Label s) (Label t) = (s = t)"
| "variant_eq (Nested p a) (Nested q b) = (p = q)"
| "variant_eq (Label s) (Nested q b) = False"
| "variant_eq (Nested p a) (Label t) = False"

lemma size_key_less:
  fixes a :: "(Element \<times> count) list"
  assumes "x \<in> set a"
  shows "2 * size (fst x) < Suc (2 * size_list (size_prod size (\<lambda>_. 0)) a)"
proof -
  have "size_prod size (\<lambda>_. 0) x \<le> size_list (size_prod size (\<lambda>_. 0)) a"
    using assms by (simp add: size_list_estimation')
  then show ?thesis by (cases x) simp
qed

text \<open>
  \<open>VariantEqual\<close> is the functor of lines 72-97: different alternatives are unequal,
  strings are compared as strings, pointers are dereferenced and the multisets compared
  with \<^verbatim>\<open>MultiSet::operator==\<close> (line 191), which is
  \<^verbatim>\<open>elements_ == other.elements_\<close> on \<^verbatim>\<open>std::unordered_map\<close>:
  the sizes agree and every entry of the left map has, among the entries of the right map
  with an equivalent key, one that is equal to it as a \<^verbatim>\<open>std::pair\<close>, that is
  by \<^verbatim>\<open>operator==\<close> of the key type and of \<^verbatim>\<open>int\<close>.
\<close>

function VariantEqual :: "Element \<Rightarrow> Element \<Rightarrow> bool"
  and MultiSet_eq :: "MultiSet \<Rightarrow> MultiSet \<Rightarrow> bool" where
  "VariantEqual (Label s) (Label t) = (s = t)"
| "VariantEqual (Nested p a) (Nested q b) = MultiSet_eq a b"
| "VariantEqual (Label s) (Nested q b) = False"
| "VariantEqual (Nested p a) (Label t) = False"
| "MultiSet_eq a b = (length a = length b \<and>
     list_all (\<lambda>x. case umap_find VariantEqual b (fst x) of
                       None \<Rightarrow> False
                     | Some y \<Rightarrow> variant_eq (fst x) (fst y) \<and> snd x = snd y) a)"
  by pat_completeness auto
termination
  by (relation "measure (\<lambda>v. case v of
          Inl (x, y) \<Rightarrow> 2 * size x
        | Inr (a, b) \<Rightarrow> 2 * size_list (size_prod size (\<lambda>_. 0)) a + 1)")
     (simp_all add: size_key_less)

definition MultiSet_neq :: "MultiSet \<Rightarrow> MultiSet \<Rightarrow> bool" where
  "MultiSet_neq a b = (\<not> MultiSet_eq a b)"

subsection \<open>The methods of \<^verbatim>\<open>MultiSet\<close>\<close>

text \<open>
  A method takes the value of the field \<^verbatim>\<open>elements_\<close> of its object as
  the argument \<open>this_elements\<close>; one that changes the object returns the new value.
  \<^verbatim>\<open>RemoveElement\<close> also returns the exception it throws, if any, so that
  the state left behind by a throwing call is part of the result.
\<close>

datatype error = NotFound

definition AddElement :: "MultiSet \<Rightarrow> Element \<Rightarrow> MultiSet" where
  "AddElement this_elements element =
     (case umap_find VariantEqual this_elements element of
        Some it \<Rightarrow> umap_put VariantEqual this_elements element (snd it + 1)
      | None \<Rightarrow> umap_put VariantEqual this_elements element 1)"

definition RemoveElement :: "MultiSet \<Rightarrow> Element \<Rightarrow> error option \<times> MultiSet" where
  "RemoveElement this_elements element =
     (case umap_find VariantEqual this_elements element of
        None \<Rightarrow> (Some NotFound, this_elements)
      | Some it \<Rightarrow>
          (if snd it - 1 = 0 then (None, umap_erase VariantEqual this_elements element)
           else (None, umap_put VariantEqual this_elements element (snd it - 1))))"

definition IsContains :: "MultiSet \<Rightarrow> Element \<Rightarrow> bool" where
  "IsContains this_elements element = (umap_find VariantEqual this_elements element \<noteq> None)"

definition IsEmpty :: "MultiSet \<Rightarrow> bool" where
  "IsEmpty this_elements = (this_elements = [])"

definition Size :: "MultiSet \<Rightarrow> size_t" where
  "Size this_elements = fold (\<lambda>element res. res + scast (snd element)) this_elements 0"

definition BuildBoolean :: "MultiSet \<Rightarrow> MultiSet" where
  "BuildBoolean this_elements =
     fold (\<lambda>element booleanSet. umap_put VariantEqual booleanSet (fst element) 1) this_elements []"

definition SetElements :: "MultiSet \<Rightarrow> MultiSet \<Rightarrow> MultiSet" where
  "SetElements this_elements elements = elements"

definition GetElements :: "MultiSet \<Rightarrow> MultiSet" where
  "GetElements this_elements = this_elements"

text \<open>\<^verbatim>\<open>std::max\<close> and \<^verbatim>\<open>std::min\<close> on \<^verbatim>\<open>int\<close>.\<close>

definition std_max :: "count \<Rightarrow> count \<Rightarrow> count" where
  "std_max a b = (if sint a < sint b then b else a)"

definition std_min :: "count \<Rightarrow> count \<Rightarrow> count" where
  "std_min a b = (if sint b < sint a then b else a)"

text \<open>
  The operators.  Each loop over a map is a \<open>fold\<close> over its entries; the second
  argument of the folded function is the map under construction.
\<close>

definition union_step :: "Element \<times> count \<Rightarrow> MultiSet \<Rightarrow> MultiSet" where
  "union_step el result =
     (let element = fst el; count_other = snd el in
      case umap_find VariantEqual result element of
        Some it \<Rightarrow> umap_put VariantEqual result element (std_max (snd it) count_other)
      | None \<Rightarrow> umap_put VariantEqual result element count_other)"

definition op_plus :: "MultiSet \<Rightarrow> MultiSet \<Rightarrow> MultiSet" where
  "op_plus this_elements other = fold union_step other this_elements"

definition op_plus_assign :: "MultiSet \<Rightarrow> MultiSet \<Rightarrow> MultiSet" where
  "op_plus_assign this_elements other = fold union_step other this_elements"

definition inter_step :: "MultiSet \<Rightarrow> Element \<times> count \<Rightarrow> MultiSet \<Rightarrow> MultiSet" where
  "inter_step other elem result =
     (let element = fst elem; count_this = snd elem in
      case umap_find VariantEqual other element of
        Some it \<Rightarrow> umap_put VariantEqual result element (std_min count_this (snd it))
      | None \<Rightarrow> result)"

definition op_times :: "MultiSet \<Rightarrow> MultiSet \<Rightarrow> MultiSet" where
  "op_times this_elements other = fold (inter_step other) this_elements []"

definition op_times_assign :: "MultiSet \<Rightarrow> MultiSet \<Rightarrow> MultiSet" where
  "op_times_assign this_elements other = fold (inter_step other) this_elements []"

definition diff_step1 :: "MultiSet \<Rightarrow> Element \<times> count \<Rightarrow> MultiSet \<Rightarrow> MultiSet" where
  "diff_step1 other el result =
     (let thisElement = fst el; thisCount = snd el in
      case umap_find VariantEqual other thisElement of
        Some it \<Rightarrow>
          (let otherCount = snd it in
           if sint otherCount < sint thisCount
           then umap_put VariantEqual result thisElement (thisCount - otherCount)
           else result)
      | None \<Rightarrow> umap_put VariantEqual result thisElement thisCount)"

definition diff_step2 :: "MultiSet \<Rightarrow> Element \<times> count \<Rightarrow> MultiSet \<Rightarrow> MultiSet" where
  "diff_step2 this_elements el result =
     (let otherElement = fst el in
      if umap_find VariantEqual this_elements otherElement = None
      then umap_put VariantEqual result otherElement (snd el)
      else result)"

definition op_minus :: "MultiSet \<Rightarrow> MultiSet \<Rightarrow> MultiSet" where
  "op_minus this_elements other =
     fold (diff_step2 this_elements) other (fold (diff_step1 other) this_elements [])"

definition op_minus_assign :: "MultiSet \<Rightarrow> MultiSet \<Rightarrow> MultiSet" where
  "op_minus_assign this_elements other =
     fold (diff_step2 this_elements) other (fold (diff_step1 other) this_elements [])"

subsection \<open>Hashing: \<^verbatim>\<open>MultiSetHash\<close> and \<^verbatim>\<open>VariantHash\<close>\<close>

text \<open>
  \<^verbatim>\<open>std::hash<std::string>\<close> and \<^verbatim>\<open>std::hash<int>\<close> are left to the
  implementation by the standard; they are the parameters \<open>hash_string\<close> and
  \<open>hash_int\<close>.  Lines 14-31 fold \<^verbatim>\<open>hash_value ^= element_hash ^ (count_hash << 1)\<close>
  over the entries, starting from 0; lines 43-60 dispatch on the alternative.
\<close>

function VariantHash :: "(string \<Rightarrow> size_t) \<Rightarrow> (count \<Rightarrow> size_t) \<Rightarrow> Element \<Rightarrow> size_t"
  and MultiSetHash :: "(string \<Rightarrow> size_t) \<Rightarrow> (count \<Rightarrow> size_t) \<Rightarrow> MultiSet \<Rightarrow> size_t" where
  "VariantHash hash_string hash_int (Label s) = hash_string s"
| "VariantHash hash_string hash_int (Nested p ms) = MultiSetHash hash_string hash_int ms"
| "MultiSetHash hash_string hash_int ms =
     fold (\<lambda>elem hash_value.
             hash_value XOR (VariantHash hash_string hash_int (fst elem)
                             XOR push_bit 1 (hash_int (snd elem)))) ms 0"
  by pat_completeness auto
termination
  by (relation "measure (\<lambda>v. case v of
          Inl (hs, hi, x) \<Rightarrow> 2 * size x
        | Inr (hs, hi, a) \<Rightarrow> 2 * size_list (size_prod size (\<lambda>_. 0)) a + 1)")
     (simp_all add: size_key_less)

subsection \<open>The input stream\<close>

text \<open>
  A \<^verbatim>\<open>std::istream\<close> is the characters not yet extracted and the two state bits
  the reader can set or observe.  Every input function first constructs a sentry, which
  sets \<^verbatim>\<open>failbit\<close> and makes the function do nothing when the stream is not
  \<^verbatim>\<open>good()\<close>.  A function that finds no character left sets
  \<^verbatim>\<open>eofbit\<close>; one that had to extract a character sets \<^verbatim>\<open>failbit\<close>
  as well and leaves its target unchanged.
\<close>

record istream =
  buf :: string
  eofbit :: bool
  failbit :: bool

definition good :: "istream \<Rightarrow> bool" where
  "good is = (\<not> eofbit is \<and> \<not> failbit is)"

definition isspace :: "char \<Rightarrow> bool" where
  "isspace c = (c \<in> set [CHR 0x20, CHR 0x09, CHR 0x0A, CHR 0x0B, CHR 0x0C, CHR 0x0D])"

text \<open>\<^verbatim>\<open>is.peek()\<close>; \<open>None\<close> is \<^verbatim>\<open>traits::eof()\<close>.\<close>

definition peek :: "istream \<Rightarrow> char option \<times> istream" where
  "peek is =
     (if \<not> good is then (None, is\<lparr>failbit := True\<rparr>)
      else case buf is of
             [] \<Rightarrow> (None, is\<lparr>eofbit := True\<rparr>)
           | c # cs \<Rightarrow> (Some c, is))"

text \<open>\<^verbatim>\<open>is.get(c)\<close>; \<open>None\<close> when no character was stored in \<open>c\<close>.\<close>

definition get_char :: "istream \<Rightarrow> char option \<times> istream" where
  "get_char is =
     (if \<not> good is then (None, is\<lparr>failbit := True\<rparr>)
      else case buf is of
             [] \<Rightarrow> (None, is\<lparr>eofbit := True, failbit := True\<rparr>)
           | c # cs \<Rightarrow> (Some c, is\<lparr>buf := cs\<rparr>))"

text \<open>\<^verbatim>\<open>is >> std::ws\<close>.\<close>

definition ws :: "istream \<Rightarrow> istream" where
  "ws is =
     (if \<not> good is then is\<lparr>failbit := True\<rparr>
      else case dropWhile isspace (buf is) of
             [] \<Rightarrow> is\<lparr>buf := [], eofbit := True\<rparr>
           | c # cs \<Rightarrow> is\<lparr>buf := c # cs\<rparr>)"

text \<open>
  \<^verbatim>\<open>is >> ch\<close> for a \<^verbatim>\<open>char\<close>: skips white space, then extracts one
  character.  The first argument is the value \<open>ch\<close> had before; it is returned when
  nothing is extracted.
\<close>

definition extract_char :: "char \<Rightarrow> istream \<Rightarrow> char \<times> istream" where
  "extract_char ch is =
     (if \<not> good is then (ch, is\<lparr>failbit := True\<rparr>)
      else case dropWhile isspace (buf is) of
             [] \<Rightarrow> (ch, is\<lparr>buf := [], eofbit := True, failbit := True\<rparr>)
           | c # cs \<Rightarrow> (c, is\<lparr>buf := cs\<rparr>))"

subsection \<open>The reader: \<^verbatim>\<open>operator>>(std::istream&, MultiSet&)\<close>\<close>

text \<open>
  The condition of the inner loop (line 410) calls \<^verbatim>\<open>peek\<close> up to three times,
  from left to right.
\<close>

definition label_cond :: "istream \<Rightarrow> bool \<times> istream" where
  "label_cond is =
     (let (c1, is1) = peek is in
      if c1 = Some CHR '','' then (False, is1)
      else let (c2, is2) = peek is1 in
           if c2 = Some CHR ''}'' then (False, is2)
           else let (c3, is3) = peek is2 in (c3 \<noteq> None, is3))"

text \<open>
  The inner loop (lines 410-415).  When the condition holds a character is available,
  so \<^verbatim>\<open>is.get(c)\<close> stores one; the other case of \<open>get_char\<close> cannot arise
  and ends the loop here.
\<close>

function read_label :: "istream \<Rightarrow> string \<Rightarrow> string \<times> istream" where
  "read_label is str_element =
     (let (go, is1) = label_cond is in
      if go then (case get_char is1 of
                    (Some c, is2) \<Rightarrow> read_label is2 (str_element @ [c])
                  | (None, is2) \<Rightarrow> (str_element, is2))
      else (str_element, is1))"
  by pat_completeness auto
termination
  by (relation "measure (\<lambda>(s, str_element). length (buf s))")
     (auto simp: label_cond_def peek_def get_char_def Let_def
           split: if_splits list.splits prod.splits)

text \<open>\<^verbatim>\<open>elements[element]++\<close> on the local map of the reader (line 420).\<close>

definition subscript_incr :: "MultiSet \<Rightarrow> Element \<Rightarrow> MultiSet" where
  "subscript_incr elements element =
     (case umap_find VariantEqual elements element of
        Some it \<Rightarrow> umap_put VariantEqual elements element (snd it + 1)
      | None \<Rightarrow> umap_put VariantEqual elements element (0 + 1))"

text \<open>
  \<open>read_MultiSet\<close> is the function from its entry to the loop, \<open>read_loop\<close> one
  round of \<^verbatim>\<open>while (true)\<close> (lines 394-435).  The loop has no bound in the
  source, so both take fuel: one unit per call and per round, and \<open>None\<close> when it is
  used up.  The arguments are: the value the uninitialised local \<^verbatim>\<open>ch\<close> happens
  to hold (\<open>ch0\<close>), the stream, the next address \<^verbatim>\<open>std::make_shared\<close> will
  return, and the target \<open>multiset\<close>; the loop also carries \<open>ch\<close> and the local map
  \<open>elements\<close>.  The result is the stream, the next free address and the target.
\<close>

fun read_MultiSet :: "nat \<Rightarrow> char \<Rightarrow> istream \<Rightarrow> addr \<Rightarrow> MultiSet \<Rightarrow> (istream \<times> addr \<times> MultiSet) option"
  and read_loop :: "nat \<Rightarrow> char \<Rightarrow> istream \<Rightarrow> addr \<Rightarrow> MultiSet \<Rightarrow> char \<Rightarrow> MultiSet
                    \<Rightarrow> (istream \<times> addr \<times> MultiSet) option" where
  "read_MultiSet 0 ch0 is next_addr multiset = None"
| "read_MultiSet (Suc fuel) ch0 is next_addr multiset =
     (let (ch, is1) = extract_char ch0 is in
      if ch \<noteq> CHR ''{'' then Some (is1\<lparr>failbit := True\<rparr>, next_addr, multiset)
      else read_loop fuel ch0 is1 next_addr multiset ch [])"
| "read_loop 0 ch0 is next_addr multiset ch elements = None"
| "read_loop (Suc fuel) ch0 is next_addr multiset ch elements =
     (let (c, is1) = peek is in
      case (if c = Some CHR ''{''
            then (case read_MultiSet fuel ch0 is1 (Suc next_addr) [] of
                    None \<Rightarrow> None
                  | Some (is2, next2, nested_multiset) \<Rightarrow>
                      Some (Nested next_addr nested_multiset, is2, next2))
            else (let (str_element, is2) = read_label (ws is1) []
                  in Some (Label str_element, is2, next_addr))) of
        None \<Rightarrow> None
      | Some (element, is3, next3) \<Rightarrow>
          (let elements' = subscript_incr elements element;
               (ch', is4) = extract_char ch (ws is3)
           in if ch' = CHR ''}'' then Some (is4, next3, SetElements multiset elements')
              else if ch' \<noteq> CHR '','' then Some (is4\<lparr>failbit := True\<rparr>, next3, multiset)
              else read_loop fuel ch0 is4 next3 multiset ch' elements'))"

subsection \<open>The writer: \<^verbatim>\<open>operator<<\<close>\<close>

text \<open>
  An output stream is the text written so far.  The body of the inner loop (lines
  488-496) does not use \<open>i\<close>; it runs once for every \<open>i\<close> with
  \<^verbatim>\<open>0 <= i < elem.second\<close>.
\<close>

function write_Element :: "Element \<Rightarrow> string \<Rightarrow> string"
  and write_MultiSet :: "MultiSet \<Rightarrow> string \<Rightarrow> string" where
  "write_Element (Label s) os = os @ s"
| "write_Element (Nested p ms) os = write_MultiSet ms os"
| "write_MultiSet multiset os =
     snd (fold (\<lambda>elem st.
                  fold (\<lambda>i st. (False, write_Element (fst elem)
                                          (if \<not> fst st then snd st @ '', '' else snd st)))
                       [0 ..< nat (sint (snd elem))] st)
               multiset (True, os @ ''{'')) @ ''}''"
  by pat_completeness auto
termination
  by (relation "measure (\<lambda>v. case v of
          Inl (x, os) \<Rightarrow> 2 * size x
        | Inr (a, os) \<Rightarrow> 2 * size_list (size_prod size (\<lambda>_. 0)) a + 1)")
     (simp_all add: size_key_less)

section \<open>Well-formed maps and stored counts\<close>

text \<open>
  A \<^verbatim>\<open>std::unordered_map\<close> never holds two keys that its key equality takes
  for equal.  \<open>keys_unique m\<close> says so of the entries of \<open>m\<close>, \<open>wf_ms m\<close> of
  \<open>m\<close> and of every multiset reached from it through a pointer, and \<open>wf_elem e\<close>
  of the multisets reached from the element \<open>e\<close>.
\<close>

fun keys_unique :: "MultiSet \<Rightarrow> bool" where
  "keys_unique [] = True"
| "keys_unique (x # m) =
     (list_all (\<lambda>y. \<not> VariantEqual (fst x) (fst y) \<and> \<not> VariantEqual (fst y) (fst x)) m
      \<and> keys_unique m)"

fun wf_elem :: "Element \<Rightarrow> bool" where
  "wf_elem (Label s) = True"
| "wf_elem (Nested p m) = (list_all (\<lambda>x. wf_elem (fst x)) m \<and> keys_unique m)"

definition wf_ms :: "MultiSet \<Rightarrow> bool" where
  "wf_ms m = (list_all (\<lambda>x. wf_elem (fst x)) m \<and> keys_unique m)"


text \<open>
  The count stored for \<open>e\<close>: \<^verbatim>\<open>GetElements().find(e)->second\<close>, and
  \<open>None\<close> when \<^verbatim>\<open>find\<close> returns \<^verbatim>\<open>end()\<close>.
\<close>

definition count_at :: "MultiSet \<Rightarrow> Element \<Rightarrow> count option" where
  "count_at m e = map_option snd (umap_find VariantEqual m e)"


text \<open>
  The count of \<open>e\<close> as a number, with 0 for an element that is not stored, and the
  invariant of the specification that every stored count is at least 1.
\<close>

definition count0 :: "MultiSet \<Rightarrow> Element \<Rightarrow> int" where
  "count0 m e = (case count_at m e of None \<Rightarrow> 0 | Some c \<Rightarrow> sint c)"

definition counts_ge1 :: "MultiSet \<Rightarrow> bool" where
  "counts_ge1 m = list_all (\<lambda>x. 1 \<le> sint (snd x)) m"

section \<open>Equality as the specification words it\<close>

text \<open>
  Sections 3, 4.1 and 4.2 of the specification: two elements are equal when they are the
  same variant and the strings are equal or the referenced multisets are; two multisets
  are equal when their maps are equal as sets of (element, count) pairs under that
  equality of elements, recursively, never by the address of a pointer.  This is the
  relation the claims about \<^verbatim>\<open>operator==\<close> are compared with.
\<close>

function spec_elem_equal :: "Element \<Rightarrow> Element \<Rightarrow> bool"
  and spec_ms_equal :: "MultiSet \<Rightarrow> MultiSet \<Rightarrow> bool" where
  "spec_elem_equal (Label s) (Label t) = (s = t)"
| "spec_elem_equal (Nested p a) (Nested q b) = spec_ms_equal a b"
| "spec_elem_equal (Label s) (Nested q b) = False"
| "spec_elem_equal (Nested p a) (Label t) = False"
| "spec_ms_equal a b =
     (list_all (\<lambda>x. list_ex (\<lambda>y. spec_elem_equal (fst x) (fst y) \<and> snd x = snd y) b) a \<and>
      list_all (\<lambda>y. list_ex (\<lambda>x. spec_elem_equal (fst x) (fst y) \<and> snd x = snd y) a) b)"
  by pat_completeness auto
termination
  by (relation "measure (\<lambda>v. case v of
          Inl (x, y) \<Rightarrow> 2 * size x
        | Inr (a, b) \<Rightarrow> 2 * size_list (size_prod size (\<lambda>_. 0)) a + 1)")
     (simp_all add: size_key_less)

section \<open>An abstraction of elements and maps\<close>

text \<open>
  \<open>abs_elem e\<close> forgets the order of the entries at every level of \<open>e\<close> and keeps,
  for every key, what the two comparisons of \<^verbatim>\<open>operator==\<close> look at: the
  address of a pointer key (\<open>key_id\<close>) and, recursively, its content.  On well-formed
  elements \<open>VariantEqual\<close> is equality of abstractions (lemma
  \<open>VariantEqual_iff_abs\<close>), and a well-formed map is the finite map \<open>alpha m\<close>
  from abstractions of keys to counts.
\<close>

datatype canon = CLabel string | CNested "((addr option \<times> canon) \<times> count) multiset"

fun key_id :: "Element \<Rightarrow> addr option" where
  "key_id (Label s) = None"
| "key_id (Nested p m) = Some p"

fun abs_elem :: "Element \<Rightarrow> canon" where
  "abs_elem (Label s) = CLabel s"
| "abs_elem (Nested p m) = CNested (mset (map (\<lambda>x. ((key_id (fst x), abs_elem (fst x)), snd x)) m))"


definition alpha :: "MultiSet \<Rightarrow> canon \<Rightarrow> count option" where
  "alpha m = map_of (map (\<lambda>x. (abs_elem (fst x), snd x)) m)"


abbreviation akey :: "Element \<times> count \<Rightarrow> canon" where
  "akey x \<equiv> abs_elem (fst x)"


text \<open>
  \<open>key_upd g h el M\<close> is one round of a loop that stores at the key of \<open>el\<close>
  the value \<open>h\<close> computes from \<open>el\<close> and the value stored there, or leaves the map
  alone when \<open>h\<close> gives \<open>None\<close>; \<open>diff_h1\<close> and \<open>diff_h2\<close> are the two
  loops of \<^verbatim>\<open>operator-\<close> in that form.
\<close>

definition key_upd :: "('e \<Rightarrow> 'k) \<Rightarrow> ('e \<Rightarrow> 'v option \<Rightarrow> 'v option) \<Rightarrow> 'e \<Rightarrow> ('k \<Rightarrow> 'v option) \<Rightarrow> ('k \<Rightarrow> 'v option)" where
  "key_upd g h el M = (case h el (M (g el)) of Some v \<Rightarrow> M(g el \<mapsto> v) | None \<Rightarrow> M)"


definition diff_h1 :: "(canon \<Rightarrow> count option) \<Rightarrow> Element \<times> count \<Rightarrow> count option \<Rightarrow> count option" where
  "diff_h1 MB el cur = (case MB (akey el) of
       Some b \<Rightarrow> if sint b < sint (snd el) then Some (snd el - b) else None
     | None \<Rightarrow> Some (snd el))"

definition diff_h2 :: "(canon \<Rightarrow> count option) \<Rightarrow> Element \<times> count \<Rightarrow> count option \<Rightarrow> count option" where
  "diff_h2 MA el cur = (if MA (akey el) = None then Some (snd el) else None)"

text \<open>The round of the loop of \<^verbatim>\<open>operator+\<close> in the same form.\<close>

definition union_h :: "Element \<times> count \<Rightarrow> count option \<Rightarrow> count option" where
  "union_h el cur = Some (case cur of Some c \<Rightarrow> std_max c (snd el) | None \<Rightarrow> snd el)"

text \<open>
  The invariant of the loop of the reader while the stream is good: no stored count
  exceeds the number of characters extracted so far, stated against a bound \<open>B\<close>
  on the length of the input.
\<close>

definition loop_inv :: "int \<Rightarrow> istream \<Rightarrow> MultiSet \<Rightarrow> bool" where
  "loop_inv B s els = (int (length (buf s)) \<le> B \<and>
      (\<forall>x\<in>set els. 1 \<le> sint (snd x) \<and> sint (snd x) + int (length (buf s)) \<le> B))"

section \<open>Well-formedness for the specification's equality, and an abstraction for it\<close>

text \<open>
  \<open>shape_elem\<close> is \<open>abs_elem\<close> without the addresses: the structure of an element
  and nothing else.  \<open>spec_wf_ms\<close> is \<open>wf_ms\<close> for the equality of the
  specification: no map holds two keys that are equal in that sense.  \<open>hash_entry\<close>
  is what one entry contributes to \<open>MultiSetHash\<close>.
\<close>

fun shape_elem :: "Element \<Rightarrow> canon" where
  "shape_elem (Label s) = CLabel s"
| "shape_elem (Nested p m) = CNested (mset (map (\<lambda>x. ((None, shape_elem (fst x)), snd x)) m))"

fun spec_keys_unique :: "MultiSet \<Rightarrow> bool" where
  "spec_keys_unique [] = True"
| "spec_keys_unique (x # m) =
     (list_all (\<lambda>y. \<not> spec_elem_equal (fst x) (fst y) \<and> \<not> spec_elem_equal (fst y) (fst x)) m
      \<and> spec_keys_unique m)"

fun spec_wf_elem :: "Element \<Rightarrow> bool" where
  "spec_wf_elem (Label s) = True"
| "spec_wf_elem (Nested p m) = (list_all (\<lambda>x. spec_wf_elem (fst x)) m \<and> spec_keys_unique m)"

definition spec_wf_ms :: "MultiSet \<Rightarrow> bool" where
  "spec_wf_ms m = (list_all (\<lambda>x. spec_wf_elem (fst x)) m \<and> spec_keys_unique m)"

definition hash_entry :: "(string \<Rightarrow> size_t) \<Rightarrow> (count \<Rightarrow> size_t) \<Rightarrow> Element \<times> count \<Rightarrow> size_t" where
  "hash_entry hs hi x = VariantHash hs hi (fst x) XOR push_bit 1 (hi (snd x))"

section \<open>Texts the reader takes back\<close>

text \<open>
  \<open>label_ok l\<close>: the label \<open>l\<close> is a label of the grammar when it stands first in
  a multiset, and is found again by the reader: it holds no separator and does not begin
  with white space or an opening brace.  \<open>plain_labels m\<close>: every element of \<open>m\<close>
  is such a label.  \<open>occurrences m\<close> is the number of elements the writer emits for
  \<open>m\<close>.  The other definitions describe the written text: \<open>texts m\<close> is the list
  of the labels in the order and number the writer emits them, \<open>sepcat\<close> joins them
  with the separator, \<open>tail_text\<close> is what follows the first label, and
  \<open>count_labels\<close> is what the loop of the reader does with the labels it has read.
\<close>

definition label_ok :: "string \<Rightarrow> bool" where
  "label_ok l = (list_all (\<lambda>c. c \<noteq> CHR '','' \<and> c \<noteq> CHR ''}'') l \<and>
                 (case l of [] \<Rightarrow> True | c # cs \<Rightarrow> \<not> isspace c \<and> c \<noteq> CHR ''{''))"

definition plain_labels :: "MultiSet \<Rightarrow> bool" where
  "plain_labels m = list_all (\<lambda>x. case fst x of Label l \<Rightarrow> label_ok l | Nested p ms \<Rightarrow> False) m"

definition occurrences :: "MultiSet \<Rightarrow> nat" where
  "occurrences m = sum_list (map (\<lambda>x. nat (sint (snd x))) m)"

fun label_of :: "Element \<Rightarrow> string" where
  "label_of (Label l) = l"
| "label_of (Nested p ms) = []"

definition texts :: "MultiSet \<Rightarrow> string list" where
  "texts m = concat (map (\<lambda>x. replicate (nat (sint (snd x))) (label_of (fst x))) m)"

definition sepcat :: "bool \<Rightarrow> string list \<Rightarrow> string" where
  "sepcat first ts = (case ts of [] \<Rightarrow> []
       | t # us \<Rightarrow> (if first then t else '', '' @ t) @ concat (map (\<lambda>u. '', '' @ u) us))"

definition tail_text :: "string list \<Rightarrow> string \<Rightarrow> string" where
  "tail_text ts rest = concat (map (\<lambda>u. '', '' @ u) ts) @ ''}'' @ rest"

definition count_labels :: "string list \<Rightarrow> MultiSet \<Rightarrow> MultiSet" where
  "count_labels ts els = fold (\<lambda>t els. subscript_incr els (Label t)) ts els"

section \<open>Lemmas\<close>

subsection \<open>\<^verbatim>\<open>VariantEqual\<close> on well-formed elements\<close>

lemma size_key: "x \<in> set m \<Longrightarrow> size (fst x) < size (Nested p m)"
proof -
  assume "x \<in> set m"
  then have "size_prod size (\<lambda>_. 0) x \<le> size_list (size_prod size (\<lambda>_. 0)) m"
    by (simp add: size_list_estimation')
  then show ?thesis by (cases x) simp
qed

lemma umap_find_None: "umap_find eq m e = None \<longleftrightarrow> (\<forall>x\<in>set m. \<not> eq e (fst x))"
  by (induction m) auto

lemma umap_find_SomeD: "umap_find eq m e = Some y \<Longrightarrow> y \<in> set m \<and> eq e (fst y)"
  by (induction m) (auto split: if_splits)

lemma umap_find_unique:
  assumes "distinct (map (\<lambda>x. g (fst x)) m)" "y \<in> set m" "\<And>x. x \<in> set m \<Longrightarrow> eq e (fst x) \<longleftrightarrow> g (fst x) = g (fst y)"
  shows "umap_find eq m e = Some y"
  using assms by (induction m) (auto simp: image_iff)

lemma keys_unique_distinct:
  assumes "\<And>x y. x \<in> set m \<Longrightarrow> y \<in> set m \<Longrightarrow> VariantEqual (fst x) (fst y) \<longleftrightarrow> g (fst x) = g (fst y)"
  shows "keys_unique m \<longleftrightarrow> distinct (map (\<lambda>x. g (fst x)) m)"
  using assms by (induction m) (auto simp: list_all_iff image_iff)

lemma variant_eq_iff: "variant_eq k k' \<and> abs_elem k = abs_elem k' \<longleftrightarrow> key_id k = key_id k' \<and> abs_elem k = abs_elem k'"
  by (cases k; cases k') auto

lemma wf_elem_key: "wf_elem (Nested p m) \<Longrightarrow> x \<in> set m \<Longrightarrow> wf_elem (fst x)"
  by (auto simp: list_all_iff)

lemma main_aux:
  "size x < n \<Longrightarrow> size y < n \<Longrightarrow> wf_elem x \<Longrightarrow> wf_elem y \<Longrightarrow> VariantEqual x y \<longleftrightarrow> abs_elem x = abs_elem y"
proof (induction n arbitrary: x y)
  case 0
  then show ?case by simp
next
  case (Suc n)
  show ?case
  proof (cases x)
    case (Label s)
    then show ?thesis by (cases y) auto
  next
    case xN: (Nested p a)
    show ?thesis
    proof (cases y)
      case (Label t)
      with xN show ?thesis by simp
    next
      case yN: (Nested q b)
      let ?G = "\<lambda>x. abs_elem (fst x)"
      let ?F = "\<lambda>x. ((key_id (fst x), abs_elem (fst x)), snd x)"
      have sz: "\<And>u. u \<in> set a \<union> set b \<Longrightarrow> size (fst u) < n"
        using Suc.prems(1,2) xN yN size_key[of _ a p] size_key[of _ b q] by fastforce
      have wfk: "\<And>u. u \<in> set a \<union> set b \<Longrightarrow> wf_elem (fst u)"
        using Suc.prems(3,4) xN yN by (auto simp: list_all_iff)
      have IH: "\<And>u v. u \<in> set a \<union> set b \<Longrightarrow> v \<in> set a \<union> set b \<Longrightarrow>
                  VariantEqual (fst u) (fst v) \<longleftrightarrow> ?G u = ?G v"
        using Suc.IH sz wfk by blast
      have da: "distinct (map ?G a)"
        using keys_unique_distinct[of a abs_elem] IH Suc.prems(3) xN by auto
      have db: "distinct (map ?G b)"
        using keys_unique_distinct[of b abs_elem] IH Suc.prems(4) yN by auto
      have dFa: "distinct (map ?F a)" using da by (auto simp: distinct_map inj_on_def)
      have dFb: "distinct (map ?F b)" using db by (auto simp: distinct_map inj_on_def)
      have found: "umap_find VariantEqual b (fst u) = Some v" if "u \<in> set a" "v \<in> set b" "?G u = ?G v" for u v
      proof (rule umap_find_unique[where g = abs_elem])
        show "distinct (map (\<lambda>x. abs_elem (fst x)) b)" by (rule db)
        show "v \<in> set b" by fact
        fix w assume "w \<in> set b"
        then show "VariantEqual (fst u) (fst w) \<longleftrightarrow> abs_elem (fst w) = abs_elem (fst v)"
          using IH[of u w] that by auto
      qed
      show ?thesis
      proof
        assume "VariantEqual x y"
        then have len: "length a = length b"
          and all: "\<And>u. u \<in> set a \<Longrightarrow> \<exists>v. umap_find VariantEqual b (fst u) = Some v \<and> variant_eq (fst u) (fst v) \<and> snd u = snd v"
          using xN yN by (auto simp: list_all_iff split: option.splits)
        have "?F ` set a \<subseteq> ?F ` set b"
        proof
          fix z assume "z \<in> ?F ` set a"
          then obtain u where u: "u \<in> set a" "z = ?F u" by auto
          from all[OF u(1)] obtain v where v: "umap_find VariantEqual b (fst u) = Some v" "variant_eq (fst u) (fst v)" "snd u = snd v" by auto
          have vb: "v \<in> set b" "VariantEqual (fst u) (fst v)" using umap_find_SomeD[OF v(1)] by auto
          then have "?G u = ?G v" using IH u(1) by auto
          then have "?F u = ?F v" using v(2,3) variant_eq_iff[of "fst u" "fst v"] by auto
          then show "z \<in> ?F ` set b" using vb(1) u(2) by auto
        qed
        moreover have "card (?F ` set a) = card (?F ` set b)"
          using dFa dFb len distinct_card[of "map ?F a"] distinct_card[of "map ?F b"] by simp
        ultimately have "?F ` set a = ?F ` set b"
          by (simp add: card_subset_eq)
        then have "mset (map ?F a) = mset (map ?F b)"
          using dFa dFb set_eq_iff_mset_eq_distinct[of "map ?F a" "map ?F b"] by simp
        then show "abs_elem x = abs_elem y" using xN yN by simp
      next
        assume "abs_elem x = abs_elem y"
        then have ms: "mset (map ?F a) = mset (map ?F b)" using xN yN by simp
        then have len: "length a = length b" using mset_eq_length[OF ms] by simp
        have "\<exists>v. umap_find VariantEqual b (fst u) = Some v \<and> variant_eq (fst u) (fst v) \<and> snd u = snd v" if "u \<in> set a" for u
        proof -
          have "?F u \<in> set (map ?F b)" using mset_eq_setD[OF ms] that by auto
          then obtain v where v: "v \<in> set b" "?F v = ?F u" by auto
          then have "umap_find VariantEqual b (fst u) = Some v" using found[OF that v(1)] by simp
          moreover have "variant_eq (fst u) (fst v)" using v(2) variant_eq_iff[of "fst u" "fst v"] by auto
          ultimately show ?thesis using v(2) by auto
        qed
        then show "VariantEqual x y" using xN yN len by (fastforce simp: list_all_iff)
      qed
    qed
  qed
qed

lemma VariantEqual_iff_abs:
  "wf_elem x \<Longrightarrow> wf_elem y \<Longrightarrow> VariantEqual x y \<longleftrightarrow> abs_elem x = abs_elem y"
  using main_aux[of x "Suc (size x + size y)" y] by simp

subsection \<open>Maps as finite maps\<close>

lemma umap_find_map_of:
  "(\<And>x. x \<in> set m \<Longrightarrow> eq e (fst x) \<longleftrightarrow> g (fst x) = g e) \<Longrightarrow>
   map_option snd (umap_find eq m e) = map_of (map (\<lambda>x. (g (fst x), snd x)) m) (g e)"
  by (induction m) auto

lemma umap_put_map_of:
  "(\<And>x. x \<in> set m \<Longrightarrow> eq e (fst x) \<longleftrightarrow> g (fst x) = g e) \<Longrightarrow>
   map_of (map (\<lambda>x. (g (fst x), snd x)) (umap_put eq m e v))
   = (map_of (map (\<lambda>x. (g (fst x), snd x)) m))(g e \<mapsto> v)"
  by (induction m) (auto simp: fun_upd_twist)

lemma umap_put_keys:
  "(\<And>x. x \<in> set m \<Longrightarrow> eq e (fst x) \<longleftrightarrow> g (fst x) = g e) \<Longrightarrow>
   map (\<lambda>x. g (fst x)) (umap_put eq m e v)
   = (if g e \<in> (\<lambda>x. g (fst x)) ` set m then map (\<lambda>x. g (fst x)) m else map (\<lambda>x. g (fst x)) m @ [g e])"
  by (induction m) (auto simp: image_iff)

lemma umap_put_fst: "fst ` set (umap_put eq m e v) \<subseteq> insert e (fst ` set m)"
  by (induction m) auto

lemma umap_erase_map_of:
  "(\<And>x. x \<in> set m \<Longrightarrow> eq e (fst x) \<longleftrightarrow> g (fst x) = g e) \<Longrightarrow>
   distinct (map (\<lambda>x. g (fst x)) m) \<Longrightarrow>
   map_of (map (\<lambda>x. (g (fst x), snd x)) (umap_erase eq m e))
   = (map_of (map (\<lambda>x. (g (fst x), snd x)) m))(g e := None)"
proof (induction m)
  case Nil
  then show ?case by simp
next
  case (Cons x m)
  show ?case
  proof (cases "eq e (fst x)")
    case True
    then have ge: "g (fst x) = g e" using Cons.prems(1) by simp
    have "g e \<notin> (\<lambda>x. g (fst x)) ` set m" using Cons.prems(2) ge by auto
    then have "map_of (map (\<lambda>x. (g (fst x), snd x)) m) (g e) = None"
      by (simp add: map_of_eq_None_iff image_image)
    then show ?thesis using True ge by (auto simp: fun_eq_iff)
  next
    case False
    then have "g (fst x) \<noteq> g e" using Cons.prems(1) by simp
    then show ?thesis using False Cons by (auto simp: fun_eq_iff)
  qed
qed

lemma umap_erase_set: "set (umap_erase eq m e) \<subseteq> set m"
  by (induction m) auto

lemma umap_erase_distinct:
  "distinct (map f m) \<Longrightarrow> distinct (map f (umap_erase eq m e))"
proof (induction m)
  case Nil
  then show ?case by simp
next
  case (Cons x m)
  have "f x \<notin> f ` set (umap_erase eq m e)"
    using Cons.prems umap_erase_set[of eq m e] by auto
  then show ?case using Cons by auto
qed

lemma wf_ms_alt:
  "wf_ms m \<longleftrightarrow> (\<forall>x\<in>set m. wf_elem (fst x)) \<and> distinct (map (\<lambda>x. abs_elem (fst x)) m)"
proof (cases "\<forall>x\<in>set m. wf_elem (fst x)")
  case True
  then have "keys_unique m \<longleftrightarrow> distinct (map (\<lambda>x. abs_elem (fst x)) m)"
    by (intro keys_unique_distinct) (simp add: VariantEqual_iff_abs)
  then show ?thesis using True by (simp add: wf_ms_def list_all_iff)
next
  case False
  then show ?thesis by (auto simp: wf_ms_def list_all_iff)
qed

lemma agree:
  "wf_ms m \<Longrightarrow> wf_elem e \<Longrightarrow> x \<in> set m \<Longrightarrow> VariantEqual e (fst x) \<longleftrightarrow> abs_elem (fst x) = abs_elem e"
  by (auto simp: wf_ms_alt VariantEqual_iff_abs)

lemma count_at_alpha: "wf_ms m \<Longrightarrow> wf_elem e \<Longrightarrow> count_at m e = alpha m (abs_elem e)"
  unfolding count_at_def alpha_def by (rule umap_find_map_of) (rule agree)

lemma find_alpha:
  "wf_ms m \<Longrightarrow> wf_elem e \<Longrightarrow> map_option snd (umap_find VariantEqual m e) = alpha m (abs_elem e)"
  using count_at_alpha by (simp add: count_at_def)

lemma put_alpha:
  "wf_ms m \<Longrightarrow> wf_elem e \<Longrightarrow> alpha (umap_put VariantEqual m e v) = (alpha m)(abs_elem e \<mapsto> v)"
  unfolding alpha_def by (rule umap_put_map_of) (rule agree)

lemma put_wf:
  assumes "wf_ms m" "wf_elem e"
  shows "wf_ms (umap_put VariantEqual m e v)"
proof -
  have k: "map (\<lambda>x. abs_elem (fst x)) (umap_put VariantEqual m e v)
      = (if abs_elem e \<in> (\<lambda>x. abs_elem (fst x)) ` set m then map (\<lambda>x. abs_elem (fst x)) m
         else map (\<lambda>x. abs_elem (fst x)) m @ [abs_elem e])"
    by (rule umap_put_keys) (rule agree[OF assms])
  have "wf_elem k" if "k \<in> insert e (fst ` set m)" for k
    using that assms by (auto simp: wf_ms_alt)
  then have "\<forall>x\<in>set (umap_put VariantEqual m e v). wf_elem (fst x)"
    using umap_put_fst[of VariantEqual m e v] by blast
  moreover have "distinct (map (\<lambda>x. abs_elem (fst x)) (umap_put VariantEqual m e v))"
    unfolding k using assms(1) by (auto simp: wf_ms_alt)
  ultimately show ?thesis by (simp add: wf_ms_alt)
qed

lemma erase_alpha:
  "wf_ms m \<Longrightarrow> wf_elem e \<Longrightarrow> alpha (umap_erase VariantEqual m e) = (alpha m)(abs_elem e := None)"
  unfolding alpha_def by (rule umap_erase_map_of) (auto simp: agree wf_ms_alt)

lemma erase_wf: "wf_ms m \<Longrightarrow> wf_ms (umap_erase VariantEqual m e)"
  using umap_erase_set[of VariantEqual m e] by (auto simp: wf_ms_alt umap_erase_distinct)

lemma alpha_Some_iff:
  "wf_ms m \<Longrightarrow> alpha m k = Some c \<longleftrightarrow> (\<exists>x\<in>set m. akey x = k \<and> snd x = c)"
proof -
  assume "wf_ms m"
  then have d: "distinct (map fst (map (\<lambda>x. (abs_elem (fst x), snd x)) m))"
    by (simp add: wf_ms_alt comp_def)
  show ?thesis
    unfolding alpha_def using map_of_eq_Some_iff[OF d, of k c] by (auto simp: image_iff)
qed

lemma alpha_None_iff: "alpha m k = None \<longleftrightarrow> k \<notin> akey ` set m"
  by (simp add: alpha_def map_of_eq_None_iff image_image)

lemma alpha_Nil: "alpha [] = Map.empty"
  by (simp add: alpha_def)

lemma wf_ms_Nil: "wf_ms []"
  by (simp add: wf_ms_def)

lemma wf_ms_key: "wf_ms m \<Longrightarrow> x \<in> set m \<Longrightarrow> wf_elem (fst x)"
  by (simp add: wf_ms_alt)

lemma wf_ms_distinct: "wf_ms m \<Longrightarrow> distinct (map akey m)"
  by (simp add: wf_ms_alt)

lemma find_None_alpha:
  "wf_ms m \<Longrightarrow> wf_elem e \<Longrightarrow> umap_find VariantEqual m e = None \<longleftrightarrow> alpha m (abs_elem e) = None"
  using find_alpha[of m e] by auto


lemma fold_refine:
  assumes "\<And>el acc. el \<in> set A \<Longrightarrow> wf_ms acc \<Longrightarrow> wf_ms (step el acc) \<and> alpha (step el acc) = upd el (alpha acc)"
    and "wf_ms acc"
  shows "wf_ms (fold step A acc) \<and> alpha (fold step A acc) = fold upd A (alpha acc)"
  using assms by (induction A arbitrary: acc) auto


lemma fold_key_upd_other:
  "k \<notin> g ` set A \<Longrightarrow> fold (key_upd g h) A M k = M k"
  by (induction A arbitrary: M) (auto simp: key_upd_def split: option.splits)

lemma fold_key_upd_at:
  "distinct (map g A) \<Longrightarrow> el \<in> set A \<Longrightarrow>
   fold (key_upd g h) A M (g el) = (case h el (M (g el)) of Some v \<Rightarrow> Some v | None \<Rightarrow> M (g el))"
proof (induction A arbitrary: M)
  case Nil
  then show ?case by simp
next
  case (Cons x A)
  show ?case
  proof (cases "el = x")
    case True
    have "g x \<notin> g ` set A" using Cons.prems(1) by auto
    then have "fold (key_upd g h) A (key_upd g h x M) (g x) = key_upd g h x M (g x)"
      by (rule fold_key_upd_other)
    moreover have "key_upd g h x M (g x) = (case h x (M (g x)) of Some v \<Rightarrow> Some v | None \<Rightarrow> M (g x))"
      by (simp add: key_upd_def split: option.splits)
    ultimately show ?thesis unfolding True by (simp split: option.splits)
  next
    case False
    then have el: "el \<in> set A" using Cons.prems(2) by simp
    then have "g x \<noteq> g el" using Cons.prems(1) by auto
    then have "key_upd g h x M (g el) = M (g el)"
      by (simp add: key_upd_def split: option.splits)
    then show ?thesis using Cons.IH[OF _ el, of "key_upd g h x M"] Cons.prems(1)
      by (simp split: option.splits)
  qed
qed


subsection \<open>\<^verbatim>\<open>AddElement\<close>\<close>

lemma AddElement_wf: "wf_ms m \<Longrightarrow> wf_elem e \<Longrightarrow> wf_ms (AddElement m e)"
  by (simp add: AddElement_def put_wf split: option.splits)

lemma AddElement_alpha:
  "wf_ms m \<Longrightarrow> wf_elem e \<Longrightarrow>
   alpha (AddElement m e) = (alpha m)(abs_elem e \<mapsto> (case alpha m (abs_elem e) of None \<Rightarrow> 1 | Some c \<Rightarrow> c + 1))"
  using find_alpha[of m e] by (auto simp: AddElement_def put_alpha split: option.splits)

lemma AddElement_fst: "fst ` set (AddElement m e) \<subseteq> insert e (fst ` set m)"
  by (simp add: AddElement_def umap_put_fst split: option.splits)


subsection \<open>\<^verbatim>\<open>operator-\<close>\<close>

lemma diff_step1_refine:
  assumes "wf_ms B" "wf_elem (fst el)" "wf_ms acc"
  shows "wf_ms (diff_step1 B el acc) \<and> alpha (diff_step1 B el acc) = key_upd akey (diff_h1 (alpha B)) el (alpha acc)"
  using assms find_alpha[of B "fst el"]
  by (auto simp: diff_step1_def key_upd_def diff_h1_def Let_def put_wf put_alpha split: option.splits)

lemma diff_step2_refine:
  assumes "wf_ms A" "wf_elem (fst el)" "wf_ms acc"
  shows "wf_ms (diff_step2 A el acc) \<and> alpha (diff_step2 A el acc) = key_upd akey (diff_h2 (alpha A)) el (alpha acc)"
  using assms find_None_alpha[of A "fst el"]
  by (auto simp: diff_step2_def key_upd_def diff_h2_def Let_def put_wf put_alpha split: option.splits)

lemma op_minus_refine:
  assumes "wf_ms A" "wf_ms B"
  shows "wf_ms (op_minus A B)"
    and "alpha (op_minus A B) =
          fold (key_upd akey (diff_h2 (alpha A))) B (fold (key_upd akey (diff_h1 (alpha B))) A Map.empty)"
proof -
  have 1: "wf_ms (fold (diff_step1 B) A []) \<and>
      alpha (fold (diff_step1 B) A []) = fold (key_upd akey (diff_h1 (alpha B))) A (alpha [])"
    by (rule fold_refine) (use assms in \<open>auto simp: diff_step1_refine wf_ms_key wf_ms_Nil\<close>)
  have 2: "wf_ms (fold (diff_step2 A) B (fold (diff_step1 B) A [])) \<and>
      alpha (fold (diff_step2 A) B (fold (diff_step1 B) A []))
      = fold (key_upd akey (diff_h2 (alpha A))) B (alpha (fold (diff_step1 B) A []))"
    by (rule fold_refine) (use assms 1 in \<open>auto simp: diff_step2_refine wf_ms_key\<close>)
  show "wf_ms (op_minus A B)" using 2 by (simp add: op_minus_def)
  show "alpha (op_minus A B) =
          fold (key_upd akey (diff_h2 (alpha A))) B (fold (key_upd akey (diff_h1 (alpha B))) A Map.empty)"
    using 1 2 by (simp add: op_minus_def alpha_Nil)
qed

lemma op_minus_alpha:
  assumes "wf_ms A" "wf_ms B"
  shows "alpha (op_minus A B) k =
     (case alpha A k of
        Some a \<Rightarrow> (case alpha B k of
                    Some b \<Rightarrow> if sint b < sint a then Some (a - b) else None
                  | None \<Rightarrow> Some a)
      | None \<Rightarrow> alpha B k)"
proof -
  let ?M1 = "fold (key_upd akey (diff_h1 (alpha B))) A Map.empty"
  have M1: "?M1 k = (case alpha A k of
        Some a \<Rightarrow> (case alpha B k of
                    Some b \<Rightarrow> if sint b < sint a then Some (a - b) else None
                  | None \<Rightarrow> Some a)
      | None \<Rightarrow> None)"
  proof (cases "alpha A k")
    case None
    then have "k \<notin> akey ` set A" by (simp add: alpha_None_iff)
    then show ?thesis using None by (simp add: fold_key_upd_other)
  next
    case (Some a)
    then obtain x where x: "x \<in> set A" "akey x = k" "snd x = a"
      using assms(1) by (auto simp: alpha_Some_iff)
    show ?thesis
      using fold_key_upd_at[OF wf_ms_distinct[OF assms(1)] x(1), of "diff_h1 (alpha B)" Map.empty] x Some
      by (auto simp: diff_h1_def split: option.splits)
  qed
  have M2: "fold (key_upd akey (diff_h2 (alpha A))) B ?M1 k =
     (case alpha B k of Some b \<Rightarrow> (if alpha A k = None then Some b else ?M1 k) | None \<Rightarrow> ?M1 k)"
  proof (cases "alpha B k")
    case None
    then have "k \<notin> akey ` set B" by (simp add: alpha_None_iff)
    then show ?thesis using None by (simp add: fold_key_upd_other)
  next
    case (Some b)
    then obtain x where x: "x \<in> set B" "akey x = k" "snd x = b"
      using assms(2) by (auto simp: alpha_Some_iff)
    show ?thesis
      using fold_key_upd_at[OF wf_ms_distinct[OF assms(2)] x(1), of "diff_h2 (alpha A)" ?M1] x Some
      by (auto simp: diff_h2_def split: option.splits)
  qed
  show ?thesis
    unfolding op_minus_refine(2)[OF assms] M2 M1 by (auto split: option.splits)
qed


subsection \<open>\<^verbatim>\<open>operator+\<close>\<close>

lemma union_step_refine:
  assumes "wf_elem (fst el)" "wf_ms acc"
  shows "wf_ms (union_step el acc) \<and> alpha (union_step el acc) = key_upd akey union_h el (alpha acc)"
  using assms find_alpha[of acc "fst el"]
  by (auto simp: union_step_def key_upd_def union_h_def Let_def put_wf put_alpha split: option.splits)

lemma op_plus_refine:
  assumes "wf_ms A" "wf_ms B"
  shows "wf_ms (op_plus A B) \<and> alpha (op_plus A B) = fold (key_upd akey union_h) B (alpha A)"
  unfolding op_plus_def
  by (rule fold_refine) (use assms in \<open>auto simp: union_step_refine wf_ms_key\<close>)

lemma op_plus_alpha:
  assumes "wf_ms A" "wf_ms B"
  shows "alpha (op_plus A B) k =
     (case alpha A k of
        Some a \<Rightarrow> (case alpha B k of Some b \<Rightarrow> Some (std_max a b) | None \<Rightarrow> Some a)
      | None \<Rightarrow> alpha B k)"
proof (cases "alpha B k")
  case None
  then have "k \<notin> akey ` set B" by (simp add: alpha_None_iff)
  then show ?thesis using None op_plus_refine[OF assms] by (simp add: fold_key_upd_other split: option.splits)
next
  case (Some b)
  then obtain x where x: "x \<in> set B" "akey x = k" "snd x = b"
    using assms(2) by (auto simp: alpha_Some_iff)
  show ?thesis
    using fold_key_upd_at[OF wf_ms_distinct[OF assms(2)] x(1), of union_h "alpha A"] x Some
      op_plus_refine[OF assms]
    by (auto simp: union_h_def split: option.splits)
qed

lemma sint_inj: "sint (a::count) = sint b \<Longrightarrow> a = b"
  by (rule signed_word_eqI)

lemma std_max_commute: "std_max a b = std_max b a"
  by (auto simp: std_max_def dest: sint_inj)

lemma sint_std_max: "sint (std_max a b) = max (sint a) (sint b)"
  by (auto simp: std_max_def)

lemma alpha_ge1: "wf_ms m \<Longrightarrow> counts_ge1 m \<Longrightarrow> alpha m k = Some c \<Longrightarrow> 1 \<le> sint c"
  by (auto simp: alpha_Some_iff counts_ge1_def list_all_iff)

lemma MultiSet_eq_refl: "wf_ms m \<Longrightarrow> MultiSet_eq m m"
proof -
  assume "wf_ms m"
  then have "wf_elem (Nested 0 m)" by (simp add: wf_ms_def)
  then have "VariantEqual (Nested 0 m) (Nested 0 m)" by (simp only: VariantEqual_iff_abs)
  then show ?thesis by simp
qed

lemma umap_put_same:
  "umap_find eq m e = Some it \<Longrightarrow> umap_put eq m e (snd it) = m"
  by (induction m) (auto split: if_splits)

lemma union_step_self:
  assumes "x \<in> set m" "umap_find VariantEqual m (fst x) = Some x"
  shows "union_step x m = m"
  using assms umap_put_same[of VariantEqual m "fst x" x]
  by (simp add: union_step_def std_max_def)

lemma find_self:
  assumes "wf_ms m" "x \<in> set m"
  shows "umap_find VariantEqual m (fst x) = Some x"
proof (rule umap_find_unique[where g = abs_elem])
  show "distinct (map (\<lambda>x. abs_elem (fst x)) m)" using assms(1) by (simp add: wf_ms_alt)
  show "x \<in> set m" by fact
  fix y assume "y \<in> set m"
  then show "VariantEqual (fst x) (fst y) \<longleftrightarrow> abs_elem (fst y) = abs_elem (fst x)"
    using assms by (auto simp: wf_ms_alt VariantEqual_iff_abs)
qed

lemma fold_union_self:
  "wf_ms m \<Longrightarrow> set B \<subseteq> set m \<Longrightarrow> fold union_step B m = m"
  by (induction B) (auto simp: union_step_self find_self)

lemma op_plus_self: "wf_ms A \<Longrightarrow> op_plus A A = A"
  by (simp add: op_plus_def fold_union_self)

subsection \<open>Stored counts stay positive\<close>

lemma counts_ge1_put:
  "counts_ge1 m \<Longrightarrow> 1 \<le> sint v \<Longrightarrow> counts_ge1 (umap_put eq m e v)"
  by (induction m) (auto simp: counts_ge1_def)

lemma counts_ge1_erase: "counts_ge1 m \<Longrightarrow> counts_ge1 (umap_erase eq m e)"
  by (induction m) (auto simp: counts_ge1_def)

lemma counts_ge1_find:
  "counts_ge1 m \<Longrightarrow> umap_find eq m e = Some it \<Longrightarrow> 1 \<le> sint (snd it)"
  using umap_find_SomeD[of eq m e it] by (auto simp: counts_ge1_def list_all_iff)

lemma sint_suc:
  fixes c :: count
  assumes "sint c < 2147483647"
  shows "sint (c + 1) = sint c + 1"
proof -
  have "- (2 ^ 31) \<le> sint c" using sint_ge[of c] by simp
  then have "signed_take_bit 31 (sint c + 1) = sint c + 1"
    using assms by (intro signed_take_bit_int_eq_self) auto
  then show ?thesis by (simp add: sint_word_ariths)
qed

lemma sint_minus:
  fixes a b :: count
  assumes "0 \<le> sint b" "sint b \<le> sint a"
  shows "sint (a - b) = sint a - sint b"
proof -
  have "sint a < 2 ^ 31" using sint_lt[of a] by simp
  then have "signed_take_bit 31 (sint a - sint b) = sint a - sint b"
    using assms by (intro signed_take_bit_int_eq_self) auto
  then show ?thesis by (simp add: sint_word_ariths)
qed

lemma sint_pred_ge1:
  fixes c :: count
  assumes "1 \<le> sint c" "c - 1 \<noteq> 0"
  shows "1 \<le> sint (c - 1)"
proof -
  have "sint (c - 1) = sint c - 1" using sint_minus[of 1 c] assms by simp
  moreover have "sint (c - 1) \<noteq> 0" using assms(2) by (metis sint_inj sint_0)
  ultimately show ?thesis using assms(1) by simp
qed

lemma int_max: "sint (0x7FFFFFFF :: count) = 2147483647"
  by simp

lemma counts_ge1_AddElement:
  assumes "counts_ge1 m" "count_at m e \<noteq> Some 0x7FFFFFFF"
  shows "counts_ge1 (AddElement m e)"
proof (cases "umap_find VariantEqual m e")
  case None
  then show ?thesis using assms by (simp add: AddElement_def counts_ge1_put)
next
  case (Some it)
  then have "snd it \<noteq> 0x7FFFFFFF" using assms(2) by (auto simp: count_at_def)
  then have "sint (snd it) \<noteq> 2147483647" using sint_inj[of "snd it" "0x7FFFFFFF"] int_max by auto
  moreover have "sint (snd it) < 2 ^ 31" using sint_lt[of "snd it"] by simp
  ultimately have "sint (snd it + 1) = sint (snd it) + 1" by (intro sint_suc) simp
  moreover have "1 \<le> sint (snd it)" using counts_ge1_find[OF assms(1) Some] .
  ultimately show ?thesis using Some assms(1) by (simp add: AddElement_def counts_ge1_put)
qed

lemma counts_ge1_RemoveElement:
  assumes "counts_ge1 m"
  shows "counts_ge1 (snd (RemoveElement m e))"
proof (cases "umap_find VariantEqual m e")
  case None
  then show ?thesis using assms by (simp add: RemoveElement_def)
next
  case (Some it)
  then show ?thesis
    using assms counts_ge1_find[OF assms Some] sint_pred_ge1[of "snd it"]
    by (simp add: RemoveElement_def counts_ge1_put counts_ge1_erase)
qed

lemma fold_preserves:
  "(\<And>el acc. el \<in> set A \<Longrightarrow> P acc \<Longrightarrow> P (step el acc)) \<Longrightarrow> P acc \<Longrightarrow> P (fold step A acc)"
  by (induction A arbitrary: acc) auto

lemma counts_ge1_Nil: "counts_ge1 []"
  by (simp add: counts_ge1_def)

lemma counts_ge1_mem: "counts_ge1 m \<Longrightarrow> x \<in> set m \<Longrightarrow> 1 \<le> sint (snd x)"
  by (simp add: counts_ge1_def list_all_iff)

lemma counts_ge1_BuildBoolean: "counts_ge1 (BuildBoolean m)"
  unfolding BuildBoolean_def
  by (rule fold_preserves) (simp_all add: counts_ge1_put counts_ge1_Nil)

lemma counts_ge1_union_step:
  "counts_ge1 acc \<Longrightarrow> 1 \<le> sint (snd el) \<Longrightarrow> counts_ge1 (union_step el acc)"
  by (auto simp: union_step_def Let_def counts_ge1_put sint_std_max counts_ge1_find split: option.splits)

lemma counts_ge1_op_plus:
  "counts_ge1 A \<Longrightarrow> counts_ge1 B \<Longrightarrow> counts_ge1 (op_plus A B)"
  unfolding op_plus_def
  by (rule fold_preserves) (simp_all add: counts_ge1_union_step counts_ge1_mem)

lemma sint_std_min: "sint (std_min a b) = min (sint a) (sint b)"
  by (auto simp: std_min_def)

lemma counts_ge1_inter_step:
  "counts_ge1 other \<Longrightarrow> counts_ge1 acc \<Longrightarrow> 1 \<le> sint (snd el) \<Longrightarrow> counts_ge1 (inter_step other el acc)"
  by (auto simp: inter_step_def Let_def counts_ge1_put sint_std_min counts_ge1_find split: option.splits)

lemma counts_ge1_op_times:
  "counts_ge1 A \<Longrightarrow> counts_ge1 B \<Longrightarrow> counts_ge1 (op_times A B)"
  unfolding op_times_def
  by (rule fold_preserves) (simp_all add: counts_ge1_inter_step counts_ge1_mem counts_ge1_Nil)

lemma counts_ge1_diff_step1:
  assumes "counts_ge1 other" "counts_ge1 acc" "1 \<le> sint (snd el)"
  shows "counts_ge1 (diff_step1 other el acc)"
proof (cases "umap_find VariantEqual other (fst el)")
  case None
  then show ?thesis using assms by (simp add: diff_step1_def counts_ge1_put)
next
  case (Some it)
  have it: "1 \<le> sint (snd it)" using counts_ge1_find[OF assms(1) Some] .
  show ?thesis
  proof (cases "sint (snd it) < sint (snd el)")
    case True
    then have "sint (snd el - snd it) = sint (snd el) - sint (snd it)"
      using it by (intro sint_minus) auto
    then show ?thesis using True Some assms by (simp add: diff_step1_def counts_ge1_put)
  next
    case False
    then show ?thesis using Some assms by (simp add: diff_step1_def)
  qed
qed

lemma counts_ge1_diff_step2:
  "counts_ge1 acc \<Longrightarrow> 1 \<le> sint (snd el) \<Longrightarrow> counts_ge1 (diff_step2 this_elements el acc)"
  by (simp add: diff_step2_def Let_def counts_ge1_put)

lemma counts_ge1_op_minus:
  assumes "counts_ge1 A" "counts_ge1 B"
  shows "counts_ge1 (op_minus A B)"
proof -
  have "counts_ge1 (fold (diff_step1 B) A [])"
    by (rule fold_preserves) (use assms in \<open>simp_all add: counts_ge1_diff_step1 counts_ge1_mem counts_ge1_Nil\<close>)
  then show ?thesis
    unfolding op_minus_def
    by (rule fold_preserves[rotated]) (use assms in \<open>simp_all add: counts_ge1_diff_step2 counts_ge1_mem\<close>)
qed

subsection \<open>The stream and the reader\<close>

lemma peek_buf: "buf (snd (peek s)) = buf s"
  by (simp add: peek_def split: list.splits)

lemma peek_good: "good (snd (peek s)) \<Longrightarrow> good s"
  by (auto simp: peek_def good_def split: list.splits if_splits)

lemma ws_len: "length (buf (ws s)) \<le> length (buf s)"
  using length_dropWhile_le[of isspace "buf s"]
  by (auto simp: ws_def split: list.splits)

lemma ws_good: "good (ws s) \<Longrightarrow> good s"
  by (auto simp: ws_def good_def split: list.splits if_splits)

lemma label_cond_buf: "buf (snd (label_cond s)) = buf s"
  by (auto simp: label_cond_def peek_def Let_def split: prod.splits list.splits if_splits)

lemma label_cond_good: "good (snd (label_cond s)) \<Longrightarrow> good s"
  by (auto simp: label_cond_def peek_def good_def Let_def split: prod.splits list.splits if_splits)

lemma get_char_len: "length (buf (snd (get_char s))) \<le> length (buf s)"
  by (auto simp: get_char_def split: list.splits)

lemma get_char_good: "good (snd (get_char s)) \<Longrightarrow> good s"
  by (auto simp: get_char_def good_def split: list.splits if_splits)

lemma read_label_len_good:
  "length (buf (snd (read_label s str))) \<le> length (buf s)
   \<and> (good (snd (read_label s str)) \<longrightarrow> good s)"
proof (induction s str rule: read_label.induct)
  case (1 s str)
  obtain go s1 where lc: "label_cond s = (go, s1)" by force
  have s1: "buf s1 = buf s" "good s1 \<Longrightarrow> good s"
    using label_cond_buf[of s] label_cond_good[of s] lc by auto
  show ?case
  proof (cases go)
    case False
    then show ?thesis using lc s1 by (simp add: read_label.simps[of s])
  next
    case True
    obtain oc s2 where gc: "get_char s1 = (oc, s2)" by force
    have s2: "length (buf s2) \<le> length (buf s1)" "good s2 \<Longrightarrow> good s1"
      using get_char_len[of s1] get_char_good[of s1] gc by auto
    show ?thesis
    proof (cases oc)
      case None
      then show ?thesis using lc True gc s1 s2 by (auto simp: read_label.simps[of s])
    next
      case (Some c)
      have "length (buf (snd (read_label s2 (str @ [c])))) \<le> length (buf s2)
          \<and> (good (snd (read_label s2 (str @ [c]))) \<longrightarrow> good s2)"
        using "1.IH" lc True gc Some by simp
      then show ?thesis using lc True gc Some s1 s2 by (auto simp: read_label.simps[of s])
    qed
  qed
qed

lemma extract_char_cases:
  assumes "extract_char ch s = (ch', s')"
  shows "(\<not> good s' \<and> ch' = ch \<and> length (buf s') \<le> length (buf s))
       \<or> (good s' \<and> good s \<and> length (buf s') < length (buf s))"
proof (cases "good s")
  case False
  then show ?thesis using assms by (auto simp: extract_char_def good_def)
next
  case True
  show ?thesis
  proof (cases "dropWhile isspace (buf s)")
    case Nil
    show ?thesis using assms True unfolding extract_char_def Nil by (auto simp: good_def)
  next
    case (Cons c cs)
    have "length (dropWhile isspace (buf s)) \<le> length (buf s)" by (rule length_dropWhile_le)
    then have "length cs < length (buf s)" unfolding Cons by simp
    then show ?thesis using assms True unfolding extract_char_def Cons by (auto simp: good_def)
  qed
qed

lemma subscript_incr_mem:
  assumes "x \<in> set (subscript_incr els e)"
  shows "x \<in> set els \<or> snd x = 1 \<or> (\<exists>y\<in>set els. snd x = snd y + 1)"
proof -
  have put: "\<And>v. x \<in> set (umap_put VariantEqual els e v) \<Longrightarrow> x \<in> set els \<or> snd x = v"
  proof -
    fix v show "x \<in> set (umap_put VariantEqual els e v) \<Longrightarrow> x \<in> set els \<or> snd x = v"
      by (induction els) (auto split: if_splits)
  qed
  show ?thesis
  proof (cases "umap_find VariantEqual els e")
    case None
    then show ?thesis using assms put[of "0 + 1"] by (auto simp: subscript_incr_def)
  next
    case (Some it)
    then have "it \<in> set els" using umap_find_SomeD by fast
    then show ?thesis using assms Some put[of "snd it + 1"] by (auto simp: subscript_incr_def)
  qed
qed

lemma loop_inv_step:
  assumes "loop_inv B s els" "B < 2147483647" "length (buf s') < length (buf s)"
  shows "loop_inv B s' (subscript_incr els e)"
proof -
  have "1 \<le> sint (snd x) \<and> sint (snd x) + int (length (buf s')) \<le> B"
    if "x \<in> set (subscript_incr els e)" for x
  proof -
    from that consider "x \<in> set els" | "snd x = 1" | y where "y \<in> set els" "snd x = snd y + 1"
      using subscript_incr_mem by blast
    then show ?thesis
    proof cases
      case 1
      then show ?thesis using assms by (auto simp: loop_inv_def)
    next
      case 2
      then show ?thesis using assms by (auto simp: loop_inv_def)
    next
      case 3
      have y: "1 \<le> sint (snd y)" "sint (snd y) + int (length (buf s)) \<le> B"
        using 3(1) assms(1) by (auto simp: loop_inv_def)
      then have "sint (snd y + 1) = sint (snd y) + 1" using assms(2) by (intro sint_suc) simp
      then show ?thesis using 3(2) y assms(3) by auto
    qed
  qed
  moreover have "int (length (buf s')) \<le> B" using assms by (simp add: loop_inv_def)
  ultimately show ?thesis by (simp add: loop_inv_def)
qed

lemma read_inv:
  "(\<forall>ch0 s nxt ms r. read_MultiSet fuel ch0 s nxt ms = Some r \<longrightarrow>
       length (buf (fst r)) \<le> length (buf s) \<and> (good (fst r) \<longrightarrow> good s) \<and>
       (counts_ge1 ms \<and> length (buf s) < 2147483647 \<longrightarrow> counts_ge1 (snd (snd r))))
 \<and> (\<forall>ch0 s nxt ms ch els r. read_loop fuel ch0 s nxt ms ch els = Some r \<longrightarrow>
       length (buf (fst r)) \<le> length (buf s) \<and> (good (fst r) \<longrightarrow> good s) \<and>
       (\<forall>B. ch \<noteq> CHR ''}'' \<and> counts_ge1 ms \<and> B < 2147483647 \<and> (good s \<longrightarrow> loop_inv B s els)
            \<longrightarrow> counts_ge1 (snd (snd r))))"
proof (induction fuel)
  case 0
  then show ?case by simp
next
  case (Suc fuel)
  have IH1: "\<And>ch0 s nxt ms r. read_MultiSet fuel ch0 s nxt ms = Some r \<Longrightarrow>
       length (buf (fst r)) \<le> length (buf s) \<and> (good (fst r) \<longrightarrow> good s)"
    using Suc by blast
  have IH2: "\<And>ch0 s nxt ms ch els r. read_loop fuel ch0 s nxt ms ch els = Some r \<Longrightarrow>
       length (buf (fst r)) \<le> length (buf s) \<and> (good (fst r) \<longrightarrow> good s)"
    using Suc by blast
  have IH2c: "\<And>ch0 s nxt ms ch els r B. read_loop fuel ch0 s nxt ms ch els = Some r \<Longrightarrow>
       ch \<noteq> CHR ''}'' \<Longrightarrow> counts_ge1 ms \<Longrightarrow> B < 2147483647 \<Longrightarrow> (good s \<Longrightarrow> loop_inv B s els)
       \<Longrightarrow> counts_ge1 (snd (snd r))"
    using Suc by blast
  have P1: "length (buf (fst r)) \<le> length (buf s) \<and> (good (fst r) \<longrightarrow> good s) \<and>
       (counts_ge1 ms \<and> length (buf s) < 2147483647 \<longrightarrow> counts_ge1 (snd (snd r)))"
    if A: "read_MultiSet (Suc fuel) ch0 s nxt ms = Some r" for ch0 s nxt ms r
  proof -
    obtain ch s1 where X: "extract_char ch0 s = (ch, s1)" by force
    note xc = extract_char_cases[OF X]
    show ?thesis
    proof (cases "ch = CHR ''{''")
      case False
      then have r: "r = (s1\<lparr>failbit := True\<rparr>, nxt, ms)" using A X by simp
      show ?thesis using xc unfolding r by (auto simp: good_def)
    next
      case True
      then have L: "read_loop fuel ch0 s1 nxt ms ch [] = Some r" using A X by simp
      have a: "length (buf (fst r)) \<le> length (buf s)" "good (fst r) \<longrightarrow> good s"
        using IH2[OF L] xc by auto
      have "counts_ge1 (snd (snd r))" if c: "counts_ge1 ms" "length (buf s) < 2147483647"
      proof (rule IH2c[OF L, of "int (length (buf s))"])
        show "ch \<noteq> CHR ''}''" using True by simp
        show "counts_ge1 ms" by fact
        show "int (length (buf s)) < 2147483647" using c(2) by simp
        show "loop_inv (int (length (buf s))) s1 []" if "good s1"
          using xc by (auto simp: loop_inv_def)
      qed
      then show ?thesis using a by simp
    qed
  qed
  have P2: "length (buf (fst r)) \<le> length (buf s) \<and> (good (fst r) \<longrightarrow> good s) \<and>
       (\<forall>B. ch \<noteq> CHR ''}'' \<and> counts_ge1 ms \<and> B < 2147483647 \<and> (good s \<longrightarrow> loop_inv B s els)
            \<longrightarrow> counts_ge1 (snd (snd r)))"
    if A: "read_loop (Suc fuel) ch0 s nxt ms ch els = Some r" for ch0 s nxt ms ch els r
  proof -
    obtain c s1 where p: "peek s = (c, s1)" by force
    have s1: "buf s1 = buf s" "good s1 \<Longrightarrow> good s"
      using peek_buf[of s] peek_good[of s] p by auto
    let ?E = "if c = Some CHR ''{''
            then (case read_MultiSet fuel ch0 s1 (Suc nxt) [] of
                    None \<Rightarrow> None
                  | Some (s2, next2, nested_multiset) \<Rightarrow>
                      Some (Nested nxt nested_multiset, s2, next2))
            else (let (str_element, s2) = read_label (ws s1) []
                  in Some (Label str_element, s2, nxt))"
    obtain element s3 next3 where E: "?E = Some (element, s3, next3)"
      using A p by (cases ?E) auto
    have s3: "length (buf s3) \<le> length (buf s)" "good s3 \<Longrightarrow> good s"
    proof -
      have "length (buf s3) \<le> length (buf s1) \<and> (good s3 \<longrightarrow> good s1)"
      proof (cases "c = Some CHR ''{''")
        case True
        then obtain nm where "read_MultiSet fuel ch0 s1 (Suc nxt) [] = Some (s3, next3, nm)"
          using E by (auto split: option.splits)
        then show ?thesis using IH1 by fastforce
      next
        case False
        then have "s3 = snd (read_label (ws s1) [])"
          using E by (auto split: prod.splits)
        then show ?thesis
          using read_label_len_good[of "ws s1" "[]"] ws_len[of s1] ws_good[of s1] by auto
      qed
      then show "length (buf s3) \<le> length (buf s)" "good s3 \<Longrightarrow> good s" using s1 by auto
    qed
    obtain ch' s4 where X: "extract_char ch (ws s3) = (ch', s4)" by force
    have xc: "(\<not> good s4 \<and> ch' = ch \<and> length (buf s4) \<le> length (buf s))
       \<or> (good s4 \<and> good s \<and> length (buf s4) < length (buf s))"
      using extract_char_cases[OF X] ws_len[of s3] ws_good[of s3] s3 by auto
    let ?els = "subscript_incr els element"
    have R: "(if ch' = CHR ''}'' then Some (s4, next3, SetElements ms ?els)
              else if ch' \<noteq> CHR '','' then Some (s4\<lparr>failbit := True\<rparr>, next3, ms)
              else read_loop fuel ch0 s4 next3 ms ch' ?els) = Some r"
      using A p E X by (simp add: Let_def)
    have inv': "loop_inv B s4 ?els" if "good s4" "B < 2147483647" "good s \<longrightarrow> loop_inv B s els" for B
      using that xc by (auto intro: loop_inv_step)
    show ?thesis
    proof (cases "ch' = CHR ''}''")
      case True
      then have r: "r = (s4, next3, SetElements ms ?els)" using R by simp
      have "counts_ge1 ?els" if "ch \<noteq> CHR ''}''" "B < 2147483647" "good s \<longrightarrow> loop_inv B s els" for B
      proof -
        have "good s4" using xc True that(1) by auto
        then have "loop_inv B s4 ?els" using inv' that by simp
        then show ?thesis by (simp add: loop_inv_def counts_ge1_def list_all_iff)
      qed
      then show ?thesis using xc unfolding r by (auto simp: SetElements_def)
    next
      case nc: False
      show ?thesis
      proof (cases "ch' \<noteq> CHR '',''")
        case True
        then have r: "r = (s4\<lparr>failbit := True\<rparr>, next3, ms)" using R nc by simp
        show ?thesis using xc unfolding r by (auto simp: good_def)
      next
        case False
        then have L: "read_loop fuel ch0 s4 next3 ms ch' ?els = Some r" using R nc by simp
        have a: "length (buf (fst r)) \<le> length (buf s)" "good (fst r) \<longrightarrow> good s"
          using IH2[OF L] xc by auto
        have "counts_ge1 (snd (snd r))"
          if "counts_ge1 ms" "B < 2147483647" "good s \<longrightarrow> loop_inv B s els" for B
          by (rule IH2c[OF L, of B]) (use that nc inv' in auto)
        then show ?thesis using a by blast
      qed
    qed
  qed
  show ?case using P1 P2 by blast
qed

lemma counts_ge1_read:
  "counts_ge1 ms \<Longrightarrow> length (buf s) < 2147483647 \<Longrightarrow>
   read_MultiSet fuel ch0 s nxt ms = Some (s', nxt', ms') \<Longrightarrow> counts_ge1 ms'"
  using read_inv[of fuel] by fastforce

declare read_label.simps [simp del]

lemma read_label_bad: "\<not> good s \<Longrightarrow> read_label s str = (str, s\<lparr>failbit := True\<rparr>)"
  by (simp add: read_label.simps[of s] label_cond_def peek_def good_def)

lemma read_label_eof:
  "good s \<Longrightarrow> buf s = [] \<Longrightarrow> read_label s str = (str, s\<lparr>eofbit := True, failbit := True\<rparr>)"
  by (simp add: read_label.simps[of s] label_cond_def peek_def good_def)

lemma read_label_stop:
  "good s \<Longrightarrow> buf s = c # cs \<Longrightarrow> c = CHR '','' \<or> c = CHR ''}'' \<Longrightarrow> read_label s str = (str, s)"
  by (auto simp: read_label.simps[of s] label_cond_def peek_def)

lemma read_label_step:
  "good s \<Longrightarrow> buf s = c # cs \<Longrightarrow> c \<noteq> CHR '','' \<Longrightarrow> c \<noteq> CHR ''}'' \<Longrightarrow>
   read_label s str = read_label (s\<lparr>buf := cs\<rparr>) (str @ [c])"
  by (simp add: read_label.simps[of s] label_cond_def peek_def get_char_def)

lemma good_buf_upd [simp]: "good (s\<lparr>buf := b\<rparr>) = good s"
  by (simp add: good_def)

lemma read_label_run:
  "good s \<Longrightarrow> buf s = l @ d # rest \<Longrightarrow> \<forall>c\<in>set l. c \<noteq> CHR '','' \<and> c \<noteq> CHR ''}'' \<Longrightarrow>
   d = CHR '','' \<or> d = CHR ''}'' \<Longrightarrow>
   read_label s str = (str @ l, s\<lparr>buf := d # rest\<rparr>)"
proof (induction l arbitrary: s str)
  case Nil
  then show ?case using read_label_stop[of s d rest str] by simp
next
  case (Cons c l)
  have "read_label s str = read_label (s\<lparr>buf := l @ d # rest\<rparr>) (str @ [c])"
    using Cons.prems by (intro read_label_step) auto
  also have "\<dots> = ((str @ [c]) @ l, s\<lparr>buf := l @ d # rest\<rparr>\<lparr>buf := d # rest\<rparr>)"
    using Cons.prems by (intro Cons.IH) auto
  finally show ?case by simp
qed

lemma read_loop_stuck:
  "\<not> good s \<Longrightarrow> read_loop fuel ch0 s nxt ms CHR '','' els = None"
proof (induction fuel arbitrary: s nxt els)
  case 0
  then show ?case by simp
next
  case (Suc fuel)
  have p: "peek s = (None, s\<lparr>failbit := True\<rparr>)" using Suc.prems by (simp add: peek_def)
  have w: "ws (s\<lparr>failbit := True\<rparr>) = s\<lparr>failbit := True\<rparr>" by (simp add: ws_def good_def)
  have l: "read_label (s\<lparr>failbit := True\<rparr>) [] = ([], s\<lparr>failbit := True\<rparr>)"
    using read_label_bad[of "s\<lparr>failbit := True\<rparr>" "[]"] by (simp add: good_def)
  have x: "extract_char CHR '','' (s\<lparr>failbit := True\<rparr>) = (CHR '','', s\<lparr>failbit := True\<rparr>)"
    by (simp add: extract_char_def good_def)
  have "\<not> good (s\<lparr>failbit := True\<rparr>)" by (simp add: good_def)
  then show ?case using Suc.IH p w l x by (simp add: Let_def)
qed

lemma read_mono:
  "(\<forall>ch0 s nxt ms r. read_MultiSet n ch0 s nxt ms = Some r \<longrightarrow> read_MultiSet (n + k) ch0 s nxt ms = Some r)
 \<and> (\<forall>ch0 s nxt ms ch els r. read_loop n ch0 s nxt ms ch els = Some r \<longrightarrow> read_loop (n + k) ch0 s nxt ms ch els = Some r)"
proof (induction n)
  case 0
  then show ?case by simp
next
  case (Suc n)
  have IH1: "\<And>ch0 s nxt ms r. read_MultiSet n ch0 s nxt ms = Some r \<Longrightarrow> read_MultiSet (n + k) ch0 s nxt ms = Some r"
    and IH2: "\<And>ch0 s nxt ms ch els r. read_loop n ch0 s nxt ms ch els = Some r \<Longrightarrow> read_loop (n + k) ch0 s nxt ms ch els = Some r"
    using Suc by blast+
  have "read_MultiSet (Suc n + k) ch0 s nxt ms = Some r"
    if "read_MultiSet (Suc n) ch0 s nxt ms = Some r" for ch0 s nxt ms r
    using that IH2 by (auto simp: Let_def split: prod.splits if_splits)
  moreover have "read_loop (Suc n + k) ch0 s nxt ms ch els = Some r"
    if A: "read_loop (Suc n) ch0 s nxt ms ch els = Some r" for ch0 s nxt ms ch els r
  proof -
    obtain c s1 where p: "peek s = (c, s1)" by force
    let ?E = "\<lambda>m. if c = Some CHR ''{''
            then (case read_MultiSet m ch0 s1 (Suc nxt) [] of
                    None \<Rightarrow> None
                  | Some (s2, next2, nested_multiset) \<Rightarrow>
                      Some (Nested nxt nested_multiset, s2, next2))
            else (let (str_element, s2) = read_label (ws s1) []
                  in Some (Label str_element, s2, nxt))"
    obtain element s3 next3 where E: "?E n = Some (element, s3, next3)"
      using A p by (cases "?E n") auto
    have E': "?E (n + k) = Some (element, s3, next3)"
    proof (cases "c = Some CHR ''{''")
      case True
      then obtain s2 next2 nm where N: "read_MultiSet n ch0 s1 (Suc nxt) [] = Some (s2, next2, nm)"
        using E by (auto split: option.splits)
      show ?thesis using E True N IH1[OF N] by simp
    next
      case False
      then show ?thesis using E by simp
    qed
    obtain ch' s4 where X: "extract_char ch (ws s3) = (ch', s4)" by force
    let ?els = "subscript_incr els element"
    let ?R = "\<lambda>m. if ch' = CHR ''}'' then Some (s4, next3, SetElements ms ?els)
              else if ch' \<noteq> CHR '','' then Some (s4\<lparr>failbit := True\<rparr>, next3, ms)
              else read_loop m ch0 s4 next3 ms ch' ?els"
    have R: "?R n = Some r" using A p E X by (simp add: Let_def)
    have "?R (n + k) = Some r" using R IH2 by (auto split: if_splits)
    then show ?thesis using p E' X by (simp add: Let_def)
  qed
  ultimately show ?case by blast
qed

lemma hang8: "read_MultiSet (Suc (Suc (Suc (Suc (Suc (Suc (Suc (Suc n)))))))) ch0 \<lparr>buf = ''{a,{{b}x}}'', eofbit = False, failbit = False\<rparr> nxt ms = None"
  by (simp add: extract_char_def peek_def ws_def good_def isspace_def Let_def
      read_label_step read_label_stop read_label_bad subscript_incr_def SetElements_def
      read_loop_stuck)

subsection \<open>Hashing\<close>

declare MultiSetHash.simps [simp del]

lemma MultiSetHash_fold:
  "MultiSetHash hs hi m = fold (\<lambda>w h. h XOR w) (map (hash_entry hs hi) m) 0"
  by (simp add: MultiSetHash.simps fold_map hash_entry_def comp_def)

lemma xor_fold_mset:
  fixes ws :: "size_t list"
  assumes "mset ws = mset ws'"
  shows "fold (\<lambda>w h. h XOR w) ws 0 = fold (\<lambda>w h. h XOR w) ws' 0"
proof -
  have "fold (\<lambda>w h. h XOR w) ws = fold (\<lambda>w h. h XOR w) ws'"
    by (rule fold_multiset_equiv) (use assms in \<open>auto simp: fun_eq_iff ac_simps\<close>)
  then show ?thesis by simp
qed

lemma image_mset_transfer:
  assumes "image_mset F A = image_mset F B"
    and "\<And>x y. x \<in># A \<Longrightarrow> y \<in># B \<Longrightarrow> F x = F y \<Longrightarrow> H x = H y"
  shows "image_mset H A = image_mset H B"
proof -
  have "rel_mset (=) (image_mset F A) (image_mset F B)"
    using assms(1) by (simp add: multiset.rel_eq)
  then have "rel_mset (\<lambda>x y. F x = F y) A B"
    by (simp add: multiset.rel_map)
  then have "rel_mset (\<lambda>x y. H x = H y) A B"
    by (rule multiset.rel_mono_strong) (use assms(2) in auto)
  then have "rel_mset (=) (image_mset H A) (image_mset H B)"
    by (simp add: multiset.rel_map)
  then show ?thesis by (simp add: multiset.rel_eq)
qed

lemma hash_of_abstraction:
  assumes L: "\<And>s. f (Label s) = CLabel s"
    and N: "\<And>p m. f (Nested p m) = CNested (mset (map (\<lambda>x. ((kid (fst x), f (fst x)), snd x)) m))"
  shows "f x = f y \<Longrightarrow> VariantHash hs hi x = VariantHash hs hi y"
proof (induction x arbitrary: y)
  case (Label s)
  then show ?case by (cases y) (simp_all add: L N)
next
  case (Nested p a)
  then obtain q b where y: "y = Nested q b" by (cases y) (simp_all add: L N)
  let ?F = "\<lambda>x. ((kid (fst x), f (fst x)), snd x)"
  have F: "image_mset ?F (mset a) = image_mset ?F (mset b)"
    using Nested.prems y N by simp
  have "image_mset (hash_entry hs hi) (mset a) = image_mset (hash_entry hs hi) (mset b)"
  proof (rule image_mset_transfer[OF F])
    fix u v assume u: "u \<in># mset a" and "?F u = ?F v"
    then have e: "f (fst u) = f (fst v)" "snd u = snd v" by auto
    have "fst u \<in> Basic_BNFs.fsts u" by (cases u) (simp add: fsts.intros)
    then have "VariantHash hs hi (fst u) = VariantHash hs hi (fst v)"
      using Nested.IH[of u "fst u" "fst v"] u e(1) by simp
    then show "hash_entry hs hi u = hash_entry hs hi v" using e(2) by (simp add: hash_entry_def)
  qed
  then have "mset (map (hash_entry hs hi) a) = mset (map (hash_entry hs hi) b)" by simp
  then have "fold (\<lambda>w h. h XOR w) (map (hash_entry hs hi) a) 0
           = fold (\<lambda>w h. h XOR w) (map (hash_entry hs hi) b) 0"
    by (rule xor_fold_mset)
  then show ?case unfolding y by (simp add: MultiSetHash_fold)
qed

lemma hash_abs: "abs_elem x = abs_elem y \<Longrightarrow> VariantHash hs hi x = VariantHash hs hi y"
  by (rule hash_of_abstraction[where f = abs_elem and kid = key_id]) simp_all

lemma hash_shape: "shape_elem x = shape_elem y \<Longrightarrow> VariantHash hs hi x = VariantHash hs hi y"
  by (rule hash_of_abstraction[where f = shape_elem and kid = "\<lambda>_. None"]) simp_all

lemma VariantHash_respects_VariantEqual:
  "wf_elem x \<Longrightarrow> wf_elem y \<Longrightarrow> VariantEqual x y \<Longrightarrow> VariantHash hs hi x = VariantHash hs hi y"
  by (rule hash_abs) (simp add: VariantEqual_iff_abs)

lemma MultiSetHash_perm: "mset A = mset B \<Longrightarrow> MultiSetHash hs hi A = MultiSetHash hs hi B"
proof -
  assume "mset A = mset B"
  then have "mset (map (hash_entry hs hi) A) = mset (map (hash_entry hs hi) B)"
    by (metis mset_map)
  then have "fold (\<lambda>w h. h XOR w) (map (hash_entry hs hi) A) 0
           = fold (\<lambda>w h. h XOR w) (map (hash_entry hs hi) B) 0"
    by (rule xor_fold_mset)
  then show ?thesis by (simp add: MultiSetHash_fold)
qed

lemma spec_keys_unique_distinct:
  assumes "\<And>x y. x \<in> set m \<Longrightarrow> y \<in> set m \<Longrightarrow> spec_elem_equal (fst x) (fst y) \<longleftrightarrow> g (fst x) = g (fst y)"
  shows "spec_keys_unique m \<longleftrightarrow> distinct (map (\<lambda>x. g (fst x)) m)"
  using assms by (induction m) (auto simp: list_all_iff image_iff)

declare spec_ms_equal.simps [simp del]

lemma spec_aux:
  "size x < n \<Longrightarrow> size y < n \<Longrightarrow> spec_wf_elem x \<Longrightarrow> spec_wf_elem y \<Longrightarrow>
   spec_elem_equal x y \<longleftrightarrow> shape_elem x = shape_elem y"
proof (induction n arbitrary: x y)
  case 0
  then show ?case by simp
next
  case (Suc n)
  show ?case
  proof (cases x)
    case (Label s)
    then show ?thesis by (cases y) auto
  next
    case xN: (Nested p a)
    show ?thesis
    proof (cases y)
      case (Label t)
      with xN show ?thesis by simp
    next
      case yN: (Nested q b)
      define G where "G = (\<lambda>x :: Element \<times> count. shape_elem (fst x))"
      define F where "F = (\<lambda>x :: Element \<times> count. ((None :: addr option, shape_elem (fst x)), snd x))"
      have sz: "\<And>u. u \<in> set a \<union> set b \<Longrightarrow> size (fst u) < n"
        using Suc.prems(1,2) xN yN size_key[of _ a p] size_key[of _ b q] by fastforce
      have wfk: "\<And>u. u \<in> set a \<union> set b \<Longrightarrow> spec_wf_elem (fst u)"
        using Suc.prems(3,4) xN yN by (auto simp: list_all_iff)
      have IH: "spec_elem_equal (fst u) (fst v) \<longleftrightarrow> G u = G v"
        if "u \<in> set a \<union> set b" "v \<in> set a \<union> set b" for u v
        unfolding G_def using Suc.IH[of "fst u" "fst v"] sz[OF that(1)] sz[OF that(2)]
          wfk[OF that(1)] wfk[OF that(2)] by simp
      have da: "distinct (map G a)"
        unfolding G_def using spec_keys_unique_distinct[of a shape_elem] IH Suc.prems(3) xN
        by (simp add: G_def)
      have db: "distinct (map G b)"
        unfolding G_def using spec_keys_unique_distinct[of b shape_elem] IH Suc.prems(4) yN
        by (simp add: G_def)
      have FG: "\<And>u v. F u = F v \<longleftrightarrow> G u = G v \<and> snd u = snd v"
        by (simp add: F_def G_def)
      have dFa: "distinct (map F a)" using da FG by (auto simp: distinct_map inj_on_def)
      have dFb: "distinct (map F b)" using db FG by (auto simp: distinct_map inj_on_def)
      have unf: "spec_ms_equal a b \<longleftrightarrow>
          (\<forall>u\<in>set a. \<exists>v\<in>set b. spec_elem_equal (fst u) (fst v) \<and> snd u = snd v) \<and>
          (\<forall>v\<in>set b. \<exists>u\<in>set a. spec_elem_equal (fst u) (fst v) \<and> snd u = snd v)"
        by (simp add: spec_ms_equal.simps list_all_iff list_ex_iff)
      have FF: "F u = F v \<longleftrightarrow> spec_elem_equal (fst u) (fst v) \<and> snd u = snd v"
        if "u \<in> set a" "v \<in> set b" for u v
        using IH[of u v] that FG by simp
      have "spec_ms_equal a b \<longleftrightarrow> F ` set a = F ` set b"
      proof
        assume eq: "spec_ms_equal a b"
        show "F ` set a = F ` set b"
        proof (intro equalityI subsetI)
          fix z assume "z \<in> F ` set a"
          then obtain u where u: "u \<in> set a" "z = F u" by blast
          then obtain v where v: "v \<in> set b" "spec_elem_equal (fst u) (fst v) \<and> snd u = snd v"
            using eq unf by blast
          have "z = F v" using FF[OF u(1) v(1)] v(2) u(2) by simp
          then show "z \<in> F ` set b" using v(1) by blast
        next
          fix z assume "z \<in> F ` set b"
          then obtain v where v: "v \<in> set b" "z = F v" by blast
          then obtain u where u: "u \<in> set a" "spec_elem_equal (fst u) (fst v) \<and> snd u = snd v"
            using eq unf by blast
          have "z = F u" using FF[OF u(1) v(1)] u(2) v(2) by simp
          then show "z \<in> F ` set a" using u(1) by blast
        qed
      next
        assume im: "F ` set a = F ` set b"
        have 1: "\<exists>v\<in>set b. spec_elem_equal (fst u) (fst v) \<and> snd u = snd v" if "u \<in> set a" for u
        proof -
          have "F u \<in> F ` set b" using im that by blast
          then obtain v where v: "v \<in> set b" "F u = F v" by blast
          then show ?thesis using FF[OF that v(1)] by blast
        qed
        have 2: "\<exists>u\<in>set a. spec_elem_equal (fst u) (fst v) \<and> snd u = snd v" if "v \<in> set b" for v
        proof -
          have "F v \<in> F ` set a" using im that by blast
          then obtain u where u: "u \<in> set a" "F v = F u" by blast
          then show ?thesis using FF[OF u(1) that] by auto
        qed
        show "spec_ms_equal a b" using 1 2 unf by blast
      qed
      also have "\<dots> \<longleftrightarrow> mset (map F a) = mset (map F b)"
        using dFa dFb set_eq_iff_mset_eq_distinct[of "map F a" "map F b"] by simp
      finally show ?thesis using xN yN by (simp add: F_def)
    qed
  qed
qed

lemma spec_equal_iff_shape:
  "spec_wf_elem x \<Longrightarrow> spec_wf_elem y \<Longrightarrow> spec_elem_equal x y \<longleftrightarrow> shape_elem x = shape_elem y"
  using spec_aux[of x "Suc (size x + size y)" y] by simp

lemma MultiSetHash_spec_equal:
  assumes "spec_wf_ms A" "spec_wf_ms B" "spec_ms_equal A B"
  shows "MultiSetHash hs hi A = MultiSetHash hs hi B"
proof -
  have "spec_wf_elem (Nested 0 A)" "spec_wf_elem (Nested 0 B)"
    using assms by (simp_all add: spec_wf_ms_def)
  moreover have "spec_elem_equal (Nested 0 A) (Nested 0 B)" using assms(3) by simp
  ultimately have "shape_elem (Nested 0 A) = shape_elem (Nested 0 B)"
    by (simp only: spec_equal_iff_shape)
  then have "VariantHash hs hi (Nested 0 A) = VariantHash hs hi (Nested 0 B)" by (rule hash_shape)
  then show ?thesis by simp
qed

subsection \<open>Writing and reading back labels\<close>

lemma word_of_nat_sint: "0 \<le> sint (c::count) \<Longrightarrow> of_nat (nat (sint c)) = c"
  by simp

lemma sepcat_append:
  "sepcat first (ts @ us) = sepcat first ts @ sepcat (first \<and> ts = []) us"
  by (cases ts) (auto simp: sepcat_def split: list.splits)

lemma sepcat_replicate_step:
  "sepcat first (replicate (Suc n) l) = sepcat first (replicate n l) @ sepcat (first \<and> n = 0) [l]"
  using sepcat_append[of first "replicate n l" "[l]"] by (simp add: replicate_append_same)

declare write_MultiSet.simps [simp del]

lemma sepcat_single: "sepcat b [l] = (if b then l else '', '' @ l)"
  by (simp add: sepcat_def)

lemma inner_fold:
  "fold (\<lambda>i st. (False, (if \<not> fst st then snd st @ '', '' else snd st) @ l))
        [0 ..< n] (first, acc)
   = (first \<and> n = 0, acc @ sepcat first (replicate n l))"
proof (induction n)
  case 0
  then show ?case by (simp add: sepcat_def)
next
  case (Suc n)
  let ?f = "\<lambda>(i::nat) st. (False, (if \<not> fst st then snd st @ '', '' else snd st) @ l)"
  have "fold ?f [0 ..< Suc n] (first, acc) = ?f n (fold ?f [0 ..< n] (first, acc))"
    by simp
  also have "\<dots> = ?f n (first \<and> n = 0, acc @ sepcat first (replicate n l))"
    unfolding Suc ..
  also have "\<dots> = (False, acc @ sepcat first (replicate n l) @ sepcat (first \<and> n = 0) [l])"
    by (simp add: sepcat_single)
  also have "\<dots> = (first \<and> Suc n = 0, acc @ sepcat first (replicate (Suc n) l))"
    unfolding sepcat_replicate_step by simp
  finally show ?case .
qed

lemma outer_fold:
  "plain_labels m \<Longrightarrow>
   fold (\<lambda>elem st.
           fold (\<lambda>i st. (False, write_Element (fst elem)
                                   (if \<not> fst st then snd st @ '', '' else snd st)))
                [0 ..< nat (sint (snd elem))] st) m (first, acc)
   = (first \<and> texts m = [], acc @ sepcat first (texts m))"
proof (induction m arbitrary: first acc)
  case Nil
  then show ?case by (simp add: texts_def sepcat_def)
next
  case (Cons x m)
  obtain l where l: "fst x = Label l" using Cons.prems by (cases "fst x") (auto simp: plain_labels_def)
  have pm: "plain_labels m" using Cons.prems by (simp add: plain_labels_def)
  have tx: "texts (x # m) = replicate (nat (sint (snd x))) l @ texts m"
    using l by (simp add: texts_def)
  show ?case
    unfolding tx sepcat_append
    using Cons.IH[OF pm] l by (simp add: inner_fold)
qed

lemma write_plain:
  "plain_labels m \<Longrightarrow> write_MultiSet m os = os @ ''{'' @ sepcat True (texts m) @ ''}''"
  by (simp add: write_MultiSet.simps outer_fold)

lemma isspace_not: "\<not> isspace CHR '',''" "\<not> isspace CHR ''}''" "\<not> isspace CHR ''{''" "isspace CHR '' ''"
  by (simp_all add: isspace_def)

lemma dropWhile_lead:
  "list_all isspace lead \<Longrightarrow> \<not> isspace c \<Longrightarrow> dropWhile isspace (lead @ c # cs) = c # cs"
  by (induction lead) auto

lemma tail_text_Nil: "tail_text [] rest = CHR ''}'' # rest"
  by (simp add: tail_text_def)

lemma tail_text_Cons: "tail_text (t # ts) rest = CHR '','' # CHR '' '' # t @ tail_text ts rest"
  by (simp add: tail_text_def)

lemma tail_text_hd: "\<exists>d r. tail_text ts rest = d # r \<and> (d = CHR '','' \<or> d = CHR ''}'') \<and>
    (ts = [] \<longrightarrow> d = CHR ''}'' \<and> r = rest) \<and>
    (\<forall>t us. ts = t # us \<longrightarrow> d = CHR '','' \<and> r = CHR '' '' # t @ tail_text us rest)"
  by (cases ts) (simp_all add: tail_text_Nil tail_text_Cons)

lemma label_ok_run:
  assumes "label_ok t"
  shows "\<forall>c\<in>set t. c \<noteq> CHR '','' \<and> c \<noteq> CHR ''}''"
    and "t \<noteq> [] \<Longrightarrow> \<not> isspace (hd t) \<and> hd t \<noteq> CHR ''{''"
  using assms by (auto simp: label_ok_def list_all_iff split: list.splits)

lemma read_round:
  assumes ok: "label_ok t" and lead: "list_all isspace lead"
    and tl: "tail_text ts rest = d # r"
  shows "peek \<lparr>buf = lead @ t @ d # r, eofbit = False, failbit = False\<rparr>
           = (Some (hd (lead @ t @ [d])), \<lparr>buf = lead @ t @ d # r, eofbit = False, failbit = False\<rparr>)"
    and "hd (lead @ t @ [d]) \<noteq> CHR ''{''"
    and "read_label (ws \<lparr>buf = lead @ t @ d # r, eofbit = False, failbit = False\<rparr>) []
           = (t, \<lparr>buf = d # r, eofbit = False, failbit = False\<rparr>)"
    and "extract_char ch (ws \<lparr>buf = d # r, eofbit = False, failbit = False\<rparr>)
           = (d, \<lparr>buf = r, eofbit = False, failbit = False\<rparr>)"
proof -
  have d: "d = CHR '','' \<or> d = CHR ''}''" using tail_text_hd[of ts rest] tl by auto
  then have dns: "\<not> isspace d" using isspace_not by auto
  obtain c cs where ccs: "lead @ t @ d # r = c # cs" by (cases "lead @ t @ d # r") auto
  then have c: "c = hd (lead @ t @ [d])" by (cases lead; cases t) auto
  show "peek \<lparr>buf = lead @ t @ d # r, eofbit = False, failbit = False\<rparr>
           = (Some (hd (lead @ t @ [d])), \<lparr>buf = lead @ t @ d # r, eofbit = False, failbit = False\<rparr>)"
    unfolding ccs c[symmetric] by (simp add: peek_def good_def)
  show "hd (lead @ t @ [d]) \<noteq> CHR ''{''"
  proof (cases lead)
    case (Cons a as)
    then have "isspace (hd (lead @ t @ [d]))" using lead by simp
    then show ?thesis using isspace_not by auto
  next
    case Nil
    then show ?thesis using label_ok_run(2)[OF ok] d by (cases t) auto
  qed
  have tds: "\<exists>e es. t @ d # r = e # es \<and> \<not> isspace e"
    using label_ok_run(2)[OF ok] dns by (cases t) auto
  then obtain e es where e: "t @ d # r = e # es" "\<not> isspace e" by blast
  have "dropWhile isspace (lead @ t @ d # r) = t @ d # r"
    unfolding e(1) using dropWhile_lead[OF lead e(2)] .
  then have w: "ws \<lparr>buf = lead @ t @ d # r, eofbit = False, failbit = False\<rparr>
      = \<lparr>buf = t @ d # r, eofbit = False, failbit = False\<rparr>"
    using e(1) by (simp add: ws_def good_def)
  show "read_label (ws \<lparr>buf = lead @ t @ d # r, eofbit = False, failbit = False\<rparr>) []
           = (t, \<lparr>buf = d # r, eofbit = False, failbit = False\<rparr>)"
    unfolding w
    using read_label_run[of "\<lparr>buf = t @ d # r, eofbit = False, failbit = False\<rparr>" t d r "[]"]
      label_ok_run(1)[OF ok] d by (simp add: good_def)
  have "ws \<lparr>buf = d # r, eofbit = False, failbit = False\<rparr> = \<lparr>buf = d # r, eofbit = False, failbit = False\<rparr>"
    using dns by (simp add: ws_def good_def)
  then show "extract_char ch (ws \<lparr>buf = d # r, eofbit = False, failbit = False\<rparr>)
           = (d, \<lparr>buf = r, eofbit = False, failbit = False\<rparr>)"
    using dns by (simp add: extract_char_def good_def)
qed

lemma read_loop_labels:
  "list_all label_ok (t # ts) \<Longrightarrow> list_all isspace lead \<Longrightarrow> length ts < fuel \<Longrightarrow>
   read_loop fuel ch0 \<lparr>buf = lead @ t @ tail_text ts rest, eofbit = False, failbit = False\<rparr>
             nxt target ch els
   = Some (\<lparr>buf = rest, eofbit = False, failbit = False\<rparr>, nxt, count_labels (t # ts) els)"
proof (induction ts arbitrary: t lead fuel ch els)
  case Nil
  then obtain f where f: "fuel = Suc f" by (cases fuel) auto
  have ok: "label_ok t" using Nil.prems by simp
  note r = read_round[OF ok Nil.prems(2) tail_text_Nil[of rest]]
  show ?case
    unfolding f tail_text_Nil
    using r(2) by (simp add: r(1,3,4) Let_def SetElements_def count_labels_def)
next
  case (Cons u us)
  then obtain f where f: "fuel = Suc f" "length us < f" by (cases fuel) auto
  have ok: "label_ok t" "list_all label_ok (u # us)" using Cons.prems by simp_all
  note r = read_round[OF ok(1) Cons.prems(2) tail_text_Cons[of u us rest]]
  have IH: "read_loop f ch0 \<lparr>buf = '' '' @ u @ tail_text us rest, eofbit = False, failbit = False\<rparr>
             nxt target CHR '','' (subscript_incr els (Label t))
     = Some (\<lparr>buf = rest, eofbit = False, failbit = False\<rparr>, nxt, count_labels (u # us) (subscript_incr els (Label t)))"
    by (rule Cons.IH[OF ok(2) _ f(2)]) (simp add: isspace_not)
  show ?case
    unfolding f tail_text_Cons
    using r(2) IH by (simp add: r(1,3,4) Let_def count_labels_def)
qed

lemma VariantEqual_Label: "VariantEqual (Label l) k \<longleftrightarrow> k = Label l"
  by (cases k) auto

lemma find_Label_None:
  "umap_find VariantEqual m (Label l) = None \<longleftrightarrow> Label l \<notin> fst ` set m"
  by (auto simp: umap_find_None VariantEqual_Label image_iff)

lemma umap_put_new: "umap_find eq m e = None \<Longrightarrow> umap_put eq m e v = m @ [(e, v)]"
  by (induction m) (auto split: if_splits)

lemma umap_find_last:
  "umap_find eq m e = None \<Longrightarrow> eq e (fst x) \<Longrightarrow> umap_find eq (m @ [x]) e = Some x"
  by (induction m) (auto split: if_splits)

lemma umap_put_last:
  "umap_find eq m e = None \<Longrightarrow> eq e (fst x) \<Longrightarrow> umap_put eq (m @ [x]) e v = m @ [(fst x, v)]"
  by (induction m) (auto split: if_splits)

lemma incr_new:
  "Label l \<notin> fst ` set acc \<Longrightarrow> subscript_incr acc (Label l) = acc @ [(Label l, 1)]"
  by (simp add: subscript_incr_def find_Label_None[THEN iffD2] umap_put_new)

lemma incr_last:
  assumes "Label l \<notin> fst ` set acc"
  shows "subscript_incr (acc @ [(Label l, v)]) (Label l) = acc @ [(Label l, v + 1)]"
proof -
  have n: "umap_find VariantEqual acc (Label l) = None" using assms by (simp add: find_Label_None)
  show ?thesis
    using umap_find_last[OF n, of "(Label l, v)"] umap_put_last[OF n, of "(Label l, v)" "v + 1"]
    by (simp add: subscript_incr_def)
qed

lemma count_labels_replicate_last:
  "Label l \<notin> fst ` set acc \<Longrightarrow>
   count_labels (replicate k l) (acc @ [(Label l, v)]) = acc @ [(Label l, v + of_nat k)]"
proof (induction k arbitrary: v)
  case 0
  then show ?case by (simp add: count_labels_def)
next
  case (Suc k)
  have "count_labels (replicate (Suc k) l) (acc @ [(Label l, v)])
      = count_labels (replicate k l) (subscript_incr (acc @ [(Label l, v)]) (Label l))"
    by (simp add: count_labels_def)
  also have "\<dots> = count_labels (replicate k l) (acc @ [(Label l, v + 1)])"
    using incr_last[OF Suc.prems] by simp
  also have "\<dots> = acc @ [(Label l, v + 1 + of_nat k)]" using Suc.IH[OF Suc.prems] .
  finally show ?case by (simp add: ac_simps)
qed

lemma count_labels_replicate:
  assumes "Label l \<notin> fst ` set acc" "1 \<le> sint c"
  shows "count_labels (replicate (nat (sint c)) l) acc = acc @ [(Label l, c)]"
proof -
  obtain k where k: "nat (sint c) = Suc k" using assms(2) by (cases "nat (sint c)") auto
  have "count_labels (replicate (Suc k) l) acc = count_labels (replicate k l) (subscript_incr acc (Label l))"
    by (simp add: count_labels_def)
  also have "\<dots> = acc @ [(Label l, 1 + of_nat k)]"
    using incr_new[OF assms(1)] count_labels_replicate_last[OF assms(1), of k 1] by simp
  also have "(1 + of_nat k :: count) = of_nat (nat (sint c))" unfolding k by simp
  also have "\<dots> = c" using assms(2) by (intro word_of_nat_sint) simp
  finally show ?thesis unfolding k .
qed

lemma count_labels_append: "count_labels (ts @ us) acc = count_labels us (count_labels ts acc)"
  by (simp add: count_labels_def)

lemma count_labels_texts:
  "plain_labels m \<Longrightarrow> counts_ge1 m \<Longrightarrow> distinct (map fst (acc @ m)) \<Longrightarrow>
   count_labels (texts m) acc = acc @ m"
proof (induction m arbitrary: acc)
  case Nil
  then show ?case by (simp add: texts_def count_labels_def)
next
  case (Cons x m)
  obtain l where l: "fst x = Label l" using Cons.prems(1) by (cases "fst x") (auto simp: plain_labels_def)
  then have x: "x = (Label l, snd x)" by (cases x) simp
  have pm: "plain_labels m" "counts_ge1 m" "1 \<le> sint (snd x)"
    using Cons.prems by (simp_all add: plain_labels_def counts_ge1_def)
  have nin: "Label l \<notin> fst ` set acc" using Cons.prems(3) l by auto
  have d: "distinct (map fst ((acc @ [x]) @ m))" using Cons.prems(3) by simp
  have "texts (x # m) = replicate (nat (sint (snd x))) l @ texts m" using l by (simp add: texts_def)
  then have "count_labels (texts (x # m)) acc
      = count_labels (texts m) (count_labels (replicate (nat (sint (snd x))) l) acc)"
    by (simp add: count_labels_append)
  also have "\<dots> = count_labels (texts m) (acc @ [x])"
    using count_labels_replicate[OF nin pm(3)] x by simp
  also have "\<dots> = (acc @ [x]) @ m" by (rule Cons.IH[OF pm(1,2) d])
  finally show ?case by simp
qed

lemma length_texts: "length (texts m) = occurrences m"
  by (induction m) (simp_all add: texts_def occurrences_def)

lemma texts_label_ok: "plain_labels m \<Longrightarrow> list_all label_ok (texts m)"
  by (induction m) (auto simp: texts_def plain_labels_def list_all_iff split: Element.splits)

lemma wf_ms_distinct_keys: "wf_ms m \<Longrightarrow> distinct (map fst m)"
proof -
  assume "wf_ms m"
  then have "distinct (map abs_elem (map fst m))" by (simp add: wf_ms_alt comp_def)
  then show ?thesis unfolding distinct_map[of abs_elem] by simp
qed

lemma spec_equal_refl:
  "spec_elem_equal e e"
proof (induction e)
  case (Label s)
  then show ?case by simp
next
  case (Nested p m)
  have "spec_elem_equal (fst x) (fst x)" if "x \<in> set m" for x
    using Nested[of x "fst x"] that by (cases x) (simp add: fsts.intros)
  then show ?case by (auto simp: spec_ms_equal.simps list_all_iff list_ex_iff)
qed

lemma read_write_nested_second:
  "write_MultiSet [(Label ''x'', 1), (Nested 7 [(Label ''a'', 1)], 1)] [] = ''{x, {a}}''
   \<and> read_MultiSet 3 CHR ''?'' \<lparr>buf = ''{x, {a}}'', eofbit = False, failbit = False\<rparr> 0 []
       = Some (\<lparr>buf = ''}'', eofbit = False, failbit = False\<rparr>, 0, [(Label ''x'', 1), (Label ''{a'', 1)])"
  by code_simp

lemma read_write_nested_first:
  "write_MultiSet [(Nested 7 [(Label ''a'', 1)], 1), (Label ''x'', 1)] [] = ''{{a}, x}''
   \<and> read_MultiSet 4 CHR ''?'' \<lparr>buf = ''{{a}, x}'', eofbit = False, failbit = False\<rparr> 0 []
       = Some (\<lparr>buf = [], eofbit = False, failbit = False\<rparr>, 1, [(Nested 0 [(Label ''a'', 1)], 1), (Label ''x'', 1)])
   \<and> spec_ms_equal [(Nested 0 [(Label ''a'', 1)], 1), (Label ''x'', 1)] [(Nested 7 [(Label ''a'', 1)], 1), (Label ''x'', 1)]
   \<and> \<not> MultiSet_eq [(Nested 0 [(Label ''a'', 1)], 1), (Label ''x'', 1)] [(Nested 7 [(Label ''a'', 1)], 1), (Label ''x'', 1)]"
  by code_simp

lemma write_empty: "write_MultiSet [] [] = ''{}''"
  by code_simp

section \<open>The claims\<close>

text \<open>
  C1.  For well-formed multisets \<open>A\<close> and \<open>B\<close> and every well-formed element
  \<open>e\<close>, the count stored for \<open>e\<close> in \<open>A - B\<close> is \<open>countA - countB\<close> when
  \<open>e\<close> is in both and \<open>countA > countB\<close> (as \<^verbatim>\<open>int\<close>s), nothing is stored
  when \<open>e\<close> is in both and \<open>countA <= countB\<close>, it is \<open>countA\<close> when \<open>e\<close> is
  in \<open>A\<close> only and \<open>countB\<close> when \<open>e\<close> is in \<open>B\<close> only.
\<close>

theorem op_minus_count:
  assumes "wf_ms A" "wf_ms B" "wf_elem e"
  shows "count_at (op_minus A B) e =
     (case (count_at A e, count_at B e) of
        (Some countA, Some countB) \<Rightarrow> if sint countB < sint countA then Some (countA - countB) else None
      | (Some countA, None) \<Rightarrow> Some countA
      | (None, Some countB) \<Rightarrow> Some countB
      | (None, None) \<Rightarrow> None)"
  using assms op_minus_refine(1)[OF assms(1,2)]
  by (simp add: count_at_alpha op_minus_alpha split: option.splits)

theorem op_minus_count_witness:
  "wf_ms [(Label ''a'', 3), (Nested 1 [(Label ''x'', 1)], 1)]
   \<and> wf_ms [(Label ''a'', 1), (Label ''r'', 5)]
   \<and> wf_elem (Label ''a'')
   \<and> count_at (op_minus [(Label ''a'', 3), (Nested 1 [(Label ''x'', 1)], 1)]
                          [(Label ''a'', 1), (Label ''r'', 5)]) (Label ''a'') = Some 2"
proof -
  have h: "wf_ms [(Label ''a'', 3), (Nested 1 [(Label ''x'', 1)], 1)]"
    "wf_ms [(Label ''a'', 1), (Label ''r'', 5)]" "wf_elem (Label ''a'')"
    by (simp_all add: wf_ms_def)
  show ?thesis using h op_minus_count[OF h] by (simp add: count_at_def)
qed

text \<open>
  C8.  On a well-formed multiset, \<^verbatim>\<open>RemoveElement(e)\<close> throws exactly when
  \<open>e\<close> is not a key; a throwing call leaves the map as it was; a call on a key with
  count \<open>c\<close> does not throw and leaves \<open>c - 1\<close> stored for \<open>e\<close>, or no entry
  when \<open>c - 1\<close> is 0.
\<close>

theorem RemoveElement_spec:
  assumes "wf_ms m" "wf_elem e"
  shows "(fst (RemoveElement m e) = Some NotFound \<longleftrightarrow> \<not> IsContains m e)
       \<and> (\<not> IsContains m e \<longrightarrow> snd (RemoveElement m e) = m)
       \<and> (\<forall>c. count_at m e = Some c \<longrightarrow>
             fst (RemoveElement m e) = None \<and>
             count_at (snd (RemoveElement m e)) e = (if c - 1 = 0 then None else Some (c - 1)))"
proof (intro conjI allI impI)
  show "fst (RemoveElement m e) = Some NotFound \<longleftrightarrow> \<not> IsContains m e"
    by (simp add: RemoveElement_def IsContains_def split: option.splits)
  show "snd (RemoveElement m e) = m" if "\<not> IsContains m e"
    using that by (simp add: RemoveElement_def IsContains_def split: option.splits)
  fix c assume c: "count_at m e = Some c"
  then obtain it where it: "umap_find VariantEqual m e = Some it" "snd it = c"
    by (auto simp: count_at_def)
  show "fst (RemoveElement m e) = None"
    using it by (simp add: RemoveElement_def)
  show "count_at (snd (RemoveElement m e)) e = (if c - 1 = 0 then None else Some (c - 1))"
  proof (cases "c - 1 = 0")
    case True
    then have "snd (RemoveElement m e) = umap_erase VariantEqual m e"
      using it by (simp add: RemoveElement_def)
    then show ?thesis using True assms
      by (simp add: count_at_alpha erase_wf erase_alpha)
  next
    case False
    then have "snd (RemoveElement m e) = umap_put VariantEqual m e (c - 1)"
      using it by (simp add: RemoveElement_def)
    then show ?thesis using False assms
      by (simp add: count_at_alpha put_wf put_alpha)
  qed
qed

theorem RemoveElement_spec_witness:
  "wf_ms [(Label ''a'', 2), (Label ''b'', 1)] \<and> wf_elem (Label ''b'')
   \<and> \<not> IsContains [(Label ''a'', 2), (Label ''b'', 1)] (Label ''c'')
   \<and> RemoveElement [(Label ''a'', 2), (Label ''b'', 1)] (Label ''c'')
       = (Some NotFound, [(Label ''a'', 2), (Label ''b'', 1)])
   \<and> fst (RemoveElement [(Label ''a'', 2), (Label ''b'', 1)] (Label ''b'')) = None
   \<and> count_at (snd (RemoveElement [(Label ''a'', 2), (Label ''b'', 1)] (Label ''b''))) (Label ''b'') = None"
proof -
  have h: "wf_ms [(Label ''a'', 2), (Label ''b'', 1)]" "wf_elem (Label ''b'')" "wf_elem (Label ''c'')"
    by (simp_all add: wf_ms_def)
  have c: "count_at [(Label ''a'', 2), (Label ''b'', 1)] (Label ''b'') = Some 1"
    "\<not> IsContains [(Label ''a'', 2), (Label ''b'', 1)] (Label ''c'')"
    by (simp_all add: count_at_def IsContains_def)
  show ?thesis
    using h c RemoveElement_spec[OF h(1,2)] RemoveElement_spec[OF h(1,3)]
    by (simp add: prod_eq_iff)
qed

text \<open>
  C10.  On a well-formed multiset, \<^verbatim>\<open>AddElement(e)\<close> leaves the count stored
  for every element \<open>f\<close> that \<open>VariantEqual\<close> does not take for \<open>e\<close> as it was,
  and every key of the new map is \<open>e\<close> or a key of the old one.
\<close>

theorem AddElement_frame:
  assumes "wf_ms m" "wf_elem e" "wf_elem f" "\<not> VariantEqual e f"
  shows "count_at (AddElement m e) f = count_at m f
       \<and> fst ` set (AddElement m e) \<subseteq> insert e (fst ` set m)"
proof -
  have ne: "abs_elem e \<noteq> abs_elem f" using assms by (simp add: VariantEqual_iff_abs)
  have "count_at (AddElement m e) f = alpha (AddElement m e) (abs_elem f)"
    using assms by (simp add: count_at_alpha AddElement_wf)
  also have "\<dots> = alpha m (abs_elem f)" using assms ne by (simp add: AddElement_alpha)
  also have "\<dots> = count_at m f" using assms by (simp add: count_at_alpha)
  finally show ?thesis using AddElement_fst by simp
qed

theorem AddElement_frame_witness:
  "wf_ms [(Nested 1 [(Label ''x'', 2)], 1)] \<and> wf_elem (Label ''b'') \<and> wf_elem (Nested 2 [(Label ''x'', 2)])
   \<and> \<not> VariantEqual (Label ''b'') (Nested 2 [(Label ''x'', 2)])
   \<and> count_at (AddElement [(Nested 1 [(Label ''x'', 2)], 1)] (Label ''b'')) (Nested 2 [(Label ''x'', 2)]) = Some 1
   \<and> fst ` set (AddElement [(Nested 1 [(Label ''x'', 2)], 1)] (Label ''b''))
       \<subseteq> insert (Label ''b'') (fst ` set [(Nested 1 [(Label ''x'', 2)], 1)])"
proof -
  have h: "wf_ms [(Nested 1 [(Label ''x'', 2)], 1)]" "wf_elem (Label ''b'')" "wf_elem (Nested 2 [(Label ''x'', 2)])"
    "\<not> VariantEqual (Label ''b'') (Nested 2 [(Label ''x'', 2)])"
    by (simp_all add: wf_ms_def)
  have c: "count_at [(Nested 1 [(Label ''x'', 2)], 1)] (Nested 2 [(Label ''x'', 2)]) = Some 1"
    by (simp add: count_at_def)
  show ?thesis using h c AddElement_frame[OF h] by simp
qed

text \<open>
  C2.  \<^verbatim>\<open>operator==\<close> does not compare nested multisets by structure at every
  depth: two well-formed multisets that each hold one pointer to a multiset with the single
  label \<open>a\<close> are equal as the specification words it, but \<open>MultiSet_eq\<close> tells them
  apart because the two pointers differ; and \<open>VariantEqual\<close>, which dereferences the
  pointers it is given, tells apart two elements that differ only in such inner addresses.
\<close>

theorem operator_eq_compares_addresses:
  "wf_ms [(Nested 1 [(Label ''a'', 1)], 1)] \<and> wf_ms [(Nested 2 [(Label ''a'', 1)], 1)]
   \<and> spec_ms_equal [(Nested 1 [(Label ''a'', 1)], 1)] [(Nested 2 [(Label ''a'', 1)], 1)]
   \<and> \<not> MultiSet_eq [(Nested 1 [(Label ''a'', 1)], 1)] [(Nested 2 [(Label ''a'', 1)], 1)]
   \<and> \<not> VariantEqual (Nested 3 [(Nested 1 [(Label ''a'', 1)], 1)]) (Nested 4 [(Nested 2 [(Label ''a'', 1)], 1)])"
  by (simp add: wf_ms_def spec_ms_equal.simps)

text \<open>
  The count law of \<^verbatim>\<open>operator+\<close>.  For well-formed multisets \<open>A\<close> and \<open>B\<close>
  with all stored counts at least 1 and every well-formed element \<open>e\<close>: the count of
  \<open>e\<close> in \<open>A + B\<close> is the maximum of its counts in \<open>A\<close> and \<open>B\<close>, an element
  that is not stored counting 0; \<open>A + B\<close> and \<open>B + A\<close> store the same count for
  \<open>e\<close>; and \<^verbatim>\<open>A + A == A\<close> holds.
\<close>

theorem op_plus_count:
  assumes "wf_ms A" "wf_ms B" "wf_elem e" "counts_ge1 A" "counts_ge1 B"
  shows "count0 (op_plus A B) e = max (count0 A e) (count0 B e)
       \<and> count_at (op_plus A B) e = count_at (op_plus B A) e
       \<and> MultiSet_eq (op_plus A A) A"
proof (intro conjI)
  have w: "wf_ms (op_plus A B)" "wf_ms (op_plus B A)"
    using op_plus_refine assms by auto
  have a: "\<And>c. alpha A (abs_elem e) = Some c \<Longrightarrow> 1 \<le> sint c"
    and b: "\<And>c. alpha B (abs_elem e) = Some c \<Longrightarrow> 1 \<le> sint c"
    using assms alpha_ge1 by blast+
  show "count0 (op_plus A B) e = max (count0 A e) (count0 B e)"
    using assms w a b
    by (auto simp: count0_def count_at_alpha op_plus_alpha sint_std_max split: option.splits)
  show "count_at (op_plus A B) e = count_at (op_plus B A) e"
    using assms w
    by (auto simp: count_at_alpha op_plus_alpha std_max_commute split: option.splits)
  show "MultiSet_eq (op_plus A A) A"
    using assms(1) by (simp only: op_plus_self MultiSet_eq_refl)
qed

theorem op_plus_count_witness:
  "wf_ms [(Label ''a'', 3), (Nested 1 [(Label ''x'', 1)], 1)]
   \<and> wf_ms [(Label ''a'', 5), (Label ''r'', 2)] \<and> wf_elem (Label ''a'')
   \<and> counts_ge1 [(Label ''a'', 3), (Nested 1 [(Label ''x'', 1)], 1)]
   \<and> counts_ge1 [(Label ''a'', 5), (Label ''r'', 2)]
   \<and> count0 (op_plus [(Label ''a'', 3), (Nested 1 [(Label ''x'', 1)], 1)] [(Label ''a'', 5), (Label ''r'', 2)]) (Label ''a'') = 5"
proof -
  have h: "wf_ms [(Label ''a'', 3), (Nested 1 [(Label ''x'', 1)], 1)]"
    "wf_ms [(Label ''a'', 5), (Label ''r'', 2)]" "wf_elem (Label ''a'')"
    "counts_ge1 [(Label ''a'', 3), (Nested 1 [(Label ''x'', 1)], 1)]"
    "counts_ge1 [(Label ''a'', 5), (Label ''r'', 2)]"
    by (simp_all add: wf_ms_def counts_ge1_def)
  have c: "count0 [(Label ''a'', 3), (Nested 1 [(Label ''x'', 1)], 1)] (Label ''a'') = 3"
    "count0 [(Label ''a'', 5), (Label ''r'', 2)] (Label ''a'') = 5"
    by (simp_all add: count0_def count_at_def)
  show ?thesis using h c op_plus_count[OF h] by simp
qed

text \<open>
  C5.  \<^verbatim>\<open>A + B == B + A\<close> is false for two well-formed multisets that hold
  pointers to equal multisets at different addresses: each union keeps the key of its left
  operand, and \<^verbatim>\<open>operator==\<close> compares the two keys by address.
\<close>

theorem op_plus_not_commutative:
  "wf_ms [(Nested 1 [(Label ''a'', 1)], 1)] \<and> wf_ms [(Nested 2 [(Label ''a'', 1)], 1)]
   \<and> \<not> MultiSet_eq (op_plus [(Nested 1 [(Label ''a'', 1)], 1)] [(Nested 2 [(Label ''a'', 1)], 1)])
                     (op_plus [(Nested 2 [(Label ''a'', 1)], 1)] [(Nested 1 [(Label ''a'', 1)], 1)])"
  by (simp add: wf_ms_def op_plus_def union_step_def std_max_def)

text \<open>
  C6, as amended.  From multisets whose stored counts are all at least 1:
  \<^verbatim>\<open>RemoveElement\<close>, \<^verbatim>\<open>BuildBoolean\<close> and the operators
  \<^verbatim>\<open>+ += * *= - -=\<close> give stored counts that are all at least 1;
  \<^verbatim>\<open>AddElement(e)\<close> does unless the count stored for \<open>e\<close> is
  \<^verbatim>\<open>INT_MAX\<close>; \<^verbatim>\<open>SetElements\<close> stores the map it is given, so it
  does when that map has all counts at least 1; and so does the reader, on an input of
  fewer than \<open>2^31 - 1\<close> characters, whenever it returns.
\<close>

theorem counts_ge1_preserved:
  assumes "counts_ge1 m" "counts_ge1 other"
  shows "(count_at m e \<noteq> Some 0x7FFFFFFF \<longrightarrow> counts_ge1 (AddElement m e))
       \<and> counts_ge1 (snd (RemoveElement m e))
       \<and> counts_ge1 (BuildBoolean m)
       \<and> counts_ge1 (op_plus m other) \<and> counts_ge1 (op_plus_assign m other)
       \<and> counts_ge1 (op_times m other) \<and> counts_ge1 (op_times_assign m other)
       \<and> counts_ge1 (op_minus m other) \<and> counts_ge1 (op_minus_assign m other)
       \<and> counts_ge1 (SetElements m other)
       \<and> (length (buf s) < 2147483647 \<and> read_MultiSet fuel ch0 s nxt m = Some (s', nxt', m')
            \<longrightarrow> counts_ge1 m')"
proof -
  have "op_plus_assign m other = op_plus m other" "op_times_assign m other = op_times m other"
    "op_minus_assign m other = op_minus m other"
    by (simp_all add: op_plus_assign_def op_plus_def op_times_assign_def op_times_def
        op_minus_assign_def op_minus_def)
  moreover have "counts_ge1 (SetElements m other)"
    using assms(2) by (simp add: SetElements_def)
  ultimately show ?thesis
    using assms counts_ge1_AddElement counts_ge1_RemoveElement counts_ge1_BuildBoolean
      counts_ge1_op_plus counts_ge1_op_times counts_ge1_op_minus counts_ge1_read
    by metis
qed

theorem counts_ge1_preserved_witness:
  "counts_ge1 [(Label ''a'', 2)] \<and> counts_ge1 [(Label ''a'', 1), (Label ''b'', 3)]
   \<and> count_at [(Label ''a'', 2)] (Label ''a'') \<noteq> Some 0x7FFFFFFF
   \<and> length (buf \<lparr>buf = ''{a, a}'', eofbit = False, failbit = False\<rparr>) < 2147483647
   \<and> read_MultiSet 3 CHR ''?'' \<lparr>buf = ''{a, a}'', eofbit = False, failbit = False\<rparr> 0 [(Label ''a'', 2)]
       = Some (\<lparr>buf = [], eofbit = False, failbit = False\<rparr>, 0, [(Label ''a'', 2)])
   \<and> counts_ge1 (AddElement [(Label ''a'', 2)] (Label ''a''))
   \<and> counts_ge1 (snd (RemoveElement [(Label ''a'', 2)] (Label ''a'')))
   \<and> counts_ge1 (op_minus [(Label ''a'', 2)] [(Label ''a'', 1), (Label ''b'', 3)])
   \<and> counts_ge1 (SetElements [(Label ''a'', 2)] [(Label ''a'', 1), (Label ''b'', 3)])"
proof -
  have h: "counts_ge1 [(Label ''a'', 2)]" "counts_ge1 [(Label ''a'', 1), (Label ''b'', 3)]"
    by (simp_all add: counts_ge1_def)
  have c: "count_at [(Label ''a'', 2)] (Label ''a'') \<noteq> Some 0x7FFFFFFF"
    by (simp add: count_at_def)
  have r: "read_MultiSet 3 CHR ''?'' \<lparr>buf = ''{a, a}'', eofbit = False, failbit = False\<rparr> 0 [(Label ''a'', 2)]
       = Some (\<lparr>buf = [], eofbit = False, failbit = False\<rparr>, 0, [(Label ''a'', 2)])"
    by code_simp
  show ?thesis
    using h c r
      counts_ge1_preserved[OF h, of "Label ''a''" "\<lparr>buf = ''{a, a}'', eofbit = False, failbit = False\<rparr>"
        3 "CHR ''?''" 0 "\<lparr>buf = [], eofbit = False, failbit = False\<rparr>" 0 "[(Label ''a'', 2)]"]
    by simp
qed

text \<open>
  \<^verbatim>\<open>SetElements\<close> stores a count of 0 when it is given one.
\<close>

theorem SetElements_counterexample:
  "counts_ge1 [(Label ''a'', 1)] \<and> \<not> counts_ge1 (SetElements [(Label ''a'', 1)] [(Label ''a'', 0)])"
  by (simp add: counts_ge1_def SetElements_def)

text \<open>
  C9.  On the input \<^verbatim>\<open>{a,{{b}x}}\<close> the reader never returns: the character
  \<open>x\<close> stands where the inner multiset needs \<^verbatim>\<open>,\<close> or \<^verbatim>\<open>}\<close>, the
  inner call sets \<^verbatim>\<open>failbit\<close> and returns, and the outer loop, whose
  \<^verbatim>\<open>ch\<close> still holds the comma read before, goes round for ever on the failed
  stream.  In the model no amount of fuel gives a result.
\<close>

theorem read_hangs: "read_MultiSet fuel ch0 \<lparr>buf = ''{a,{{b}x}}'', eofbit = False, failbit = False\<rparr> nxt ms = None"
proof (cases "read_MultiSet fuel ch0 \<lparr>buf = ''{a,{{b}x}}'', eofbit = False, failbit = False\<rparr> nxt ms")
  case None
  then show ?thesis .
next
  case (Some r)
  then have "read_MultiSet (fuel + 8) ch0 \<lparr>buf = ''{a,{{b}x}}'', eofbit = False, failbit = False\<rparr> nxt ms = Some r"
    using read_mono[of fuel 8] by blast
  then show ?thesis using hang8[of fuel ch0 nxt ms] by (simp add: eval_nat_numeral)
qed

text \<open>
  C4.  Parsing \<^verbatim>\<open>{}\<close> succeeds, with any fuel from 2, and stores the empty label
  once: the multiset has \<^verbatim>\<open>Size() == 1\<close> and is not empty.
\<close>

theorem read_empty_braces:
  "read_MultiSet (Suc (Suc fuel)) ch0 \<lparr>buf = ''{}'', eofbit = False, failbit = False\<rparr> nxt ms
     = Some (\<lparr>buf = [], eofbit = False, failbit = False\<rparr>, nxt, [(Label [], 1)])
   \<and> Size [(Label [], 1)] = 1 \<and> \<not> IsEmpty [(Label [], 1)]"
  by (simp add: extract_char_def peek_def ws_def good_def isspace_def Let_def
      read_label_stop subscript_incr_def SetElements_def Size_def IsEmpty_def)

text \<open>
  C7.  Whatever \<^verbatim>\<open>std::hash<std::string>\<close> and \<^verbatim>\<open>std::hash<int>\<close>
  are: well-formed elements that \<open>VariantEqual\<close> takes for equal have the same
  \<open>VariantHash\<close>; well-formed multisets that \<^verbatim>\<open>operator==\<close> takes for equal
  have the same \<open>MultiSetHash\<close>; so have multisets that are equal as the specification
  words it, when no two keys of a map are equal in that sense; and the hash of a multiset
  does not depend on the order of its entries.
\<close>

theorem hash_consistent:
  "(wf_elem a \<and> wf_elem b \<and> VariantEqual a b \<longrightarrow> VariantHash hs hi a = VariantHash hs hi b)
 \<and> (wf_ms A \<and> wf_ms B \<and> MultiSet_eq A B \<longrightarrow> MultiSetHash hs hi A = MultiSetHash hs hi B)
 \<and> (spec_wf_ms A \<and> spec_wf_ms B \<and> spec_ms_equal A B \<longrightarrow> MultiSetHash hs hi A = MultiSetHash hs hi B)
 \<and> (mset A = mset B \<longrightarrow> MultiSetHash hs hi A = MultiSetHash hs hi B)"
proof (intro conjI impI)
  show "VariantHash hs hi a = VariantHash hs hi b" if "wf_elem a \<and> wf_elem b \<and> VariantEqual a b"
    using that by (blast intro: VariantHash_respects_VariantEqual)
  show "MultiSetHash hs hi A = MultiSetHash hs hi B" if "wf_ms A \<and> wf_ms B \<and> MultiSet_eq A B"
  proof -
    have "wf_elem (Nested 0 A)" "wf_elem (Nested 0 B)" "VariantEqual (Nested 0 A) (Nested 0 B)"
      using that by (simp_all add: wf_ms_def)
    then have "VariantHash hs hi (Nested 0 A) = VariantHash hs hi (Nested 0 B)"
      by (rule VariantHash_respects_VariantEqual)
    then show ?thesis by simp
  qed
  show "MultiSetHash hs hi A = MultiSetHash hs hi B" if "spec_wf_ms A \<and> spec_wf_ms B \<and> spec_ms_equal A B"
    using that by (blast intro: MultiSetHash_spec_equal)
  show "MultiSetHash hs hi A = MultiSetHash hs hi B" if "mset A = mset B"
    using that by (rule MultiSetHash_perm)
qed

theorem hash_consistent_witness:
  "wf_elem (Nested 1 [(Label ''x'', 1), (Nested 3 [(Label ''z'', 1)], 2)])
 \<and> wf_elem (Nested 2 [(Nested 3 [(Label ''z'', 1)], 2), (Label ''x'', 1)])
 \<and> VariantEqual (Nested 1 [(Label ''x'', 1), (Nested 3 [(Label ''z'', 1)], 2)])
                  (Nested 2 [(Nested 3 [(Label ''z'', 1)], 2), (Label ''x'', 1)])
 \<and> VariantHash (\<lambda>s. of_nat (length s)) ucast (Nested 1 [(Label ''x'', 1), (Nested 3 [(Label ''z'', 1)], 2)])
   = VariantHash (\<lambda>s. of_nat (length s)) ucast (Nested 2 [(Nested 3 [(Label ''z'', 1)], 2), (Label ''x'', 1)])
 \<and> spec_wf_ms [(Label ''x'', 1), (Nested 3 [(Label ''z'', 1)], 2)]
 \<and> spec_wf_ms [(Nested 4 [(Label ''z'', 1)], 2), (Label ''x'', 1)]
 \<and> spec_ms_equal [(Label ''x'', 1), (Nested 3 [(Label ''z'', 1)], 2)]
                   [(Nested 4 [(Label ''z'', 1)], 2), (Label ''x'', 1)]
 \<and> MultiSetHash (\<lambda>s. of_nat (length s)) ucast [(Label ''x'', 1), (Nested 3 [(Label ''z'', 1)], 2)]
   = MultiSetHash (\<lambda>s. of_nat (length s)) ucast [(Nested 4 [(Label ''z'', 1)], 2), (Label ''x'', 1)]"
proof -
  have h1: "wf_elem (Nested 1 [(Label ''x'', 1), (Nested 3 [(Label ''z'', 1)], 2)])
     \<and> wf_elem (Nested 2 [(Nested 3 [(Label ''z'', 1)], 2), (Label ''x'', 1)])
     \<and> VariantEqual (Nested 1 [(Label ''x'', 1), (Nested 3 [(Label ''z'', 1)], 2)])
                      (Nested 2 [(Nested 3 [(Label ''z'', 1)], 2), (Label ''x'', 1)])"
    by simp
  have h2: "spec_wf_ms [(Label ''x'', 1), (Nested 3 [(Label ''z'', 1)], 2)]
     \<and> spec_wf_ms [(Nested 4 [(Label ''z'', 1)], 2), (Label ''x'', 1)]
     \<and> spec_ms_equal [(Label ''x'', 1), (Nested 3 [(Label ''z'', 1)], 2)]
                       [(Nested 4 [(Label ''z'', 1)], 2), (Label ''x'', 1)]"
    by (simp add: spec_wf_ms_def spec_ms_equal.simps)
  show ?thesis
    using h1 h2
      hash_consistent[of "Nested 1 [(Label ''x'', 1), (Nested 3 [(Label ''z'', 1)], 2)]"
        "Nested 2 [(Nested 3 [(Label ''z'', 1)], 2), (Label ''x'', 1)]"
        "\<lambda>s. of_nat (length s)" ucast
        "[(Label ''x'', 1), (Nested 3 [(Label ''z'', 1)], 2)]"
        "[(Nested 4 [(Label ''z'', 1)], 2), (Label ''x'', 1)]"]
    by blast
qed

text \<open>
  C3, as amended.  Let \<open>m\<close> be a non-empty well-formed multiset with all counts at
  least 1 whose elements are labels that hold no \<^verbatim>\<open>,\<close> and no \<^verbatim>\<open>}\<close>
  and do not begin with white space or \<^verbatim>\<open>{\<close>.  Then the reader, given the text
  the writer produces for \<open>m\<close> (followed by any text \<open>rest\<close>) and more fuel than
  \<open>m\<close> has elements counted with multiplicity, returns without \<^verbatim>\<open>failbit\<close>,
  has consumed exactly the written text, and stores in the target a multiset equal to
  \<open>m\<close> both by \<^verbatim>\<open>operator==\<close> and as the specification words equality.
\<close>

theorem read_write_labels:
  assumes "m \<noteq> []" "plain_labels m" "wf_ms m" "counts_ge1 m" "occurrences m < fuel"
  shows "\<exists>s' m'. read_MultiSet fuel ch0
             \<lparr>buf = write_MultiSet m [] @ rest, eofbit = False, failbit = False\<rparr> nxt target
           = Some (s', nxt, m')
         \<and> \<not> failbit s' \<and> buf s' = rest \<and> MultiSet_eq m' m \<and> spec_ms_equal m' m"
proof -
  obtain x m0 where m: "m = x # m0" using assms(1) by (cases m) auto
  have "1 \<le> sint (snd x)" using assms(4) m by (simp add: counts_ge1_def)
  then have "texts m \<noteq> []" unfolding m by (auto simp: texts_def)
  then obtain t ts where tt: "texts m = t # ts" by (cases "texts m") auto
  have w: "write_MultiSet m [] @ rest = CHR ''{'' # t @ tail_text ts rest"
  proof -
    have "concat (map ((@) '', '') ts) = concat (map (\<lambda>u. CHR '','' # CHR '' '' # u) ts)"
      by (induction ts) simp_all
    then show ?thesis using assms(2) tt by (simp add: write_plain sepcat_def tail_text_def)
  qed
  obtain f where f: "fuel = Suc f" "length ts < f"
    using assms(5) length_texts[of m] tt by (cases fuel) auto
  have x: "extract_char ch0 \<lparr>buf = CHR ''{'' # t @ tail_text ts rest, eofbit = False, failbit = False\<rparr>
      = (CHR ''{'', \<lparr>buf = t @ tail_text ts rest, eofbit = False, failbit = False\<rparr>)"
    by (simp add: extract_char_def good_def isspace_not)
  have ok: "list_all label_ok (t # ts)" using texts_label_ok[OF assms(2)] tt by simp
  have L: "read_loop f ch0 \<lparr>buf = [] @ t @ tail_text ts rest, eofbit = False, failbit = False\<rparr>
             nxt target CHR ''{'' []
     = Some (\<lparr>buf = rest, eofbit = False, failbit = False\<rparr>, nxt, count_labels (t # ts) [])"
    by (rule read_loop_labels[OF ok _ f(2)]) simp
  have c: "count_labels (t # ts) [] = m"
    using count_labels_texts[OF assms(2,4), of "[]"] wf_ms_distinct_keys[OF assms(3)] tt by simp
  have "read_MultiSet fuel ch0
             \<lparr>buf = write_MultiSet m [] @ rest, eofbit = False, failbit = False\<rparr> nxt target
           = Some (\<lparr>buf = rest, eofbit = False, failbit = False\<rparr>, nxt, m)"
    unfolding w f(1) using x L c by simp
  moreover have "MultiSet_eq m m" using assms(3) by (rule MultiSet_eq_refl)
  moreover have "spec_ms_equal m m" using spec_equal_refl[of "Nested 0 m"] by simp
  ultimately show ?thesis by auto
qed

theorem read_write_labels_witness:
  "[(Label ''a'', 2), (Label ''b c'', 1)] \<noteq> [] \<and> plain_labels [(Label ''a'', 2), (Label ''b c'', 1)]
   \<and> wf_ms [(Label ''a'', 2), (Label ''b c'', 1)] \<and> counts_ge1 [(Label ''a'', 2), (Label ''b c'', 1)]
   \<and> occurrences [(Label ''a'', 2), (Label ''b c'', 1)] < 4
   \<and> write_MultiSet [(Label ''a'', 2), (Label ''b c'', 1)] [] = ''{a, a, b c}''
   \<and> (\<exists>s' m'. read_MultiSet 4 CHR ''?''
             \<lparr>buf = write_MultiSet [(Label ''a'', 2), (Label ''b c'', 1)] [] @ [], eofbit = False, failbit = False\<rparr> 0 []
           = Some (s', 0, m')
         \<and> \<not> failbit s' \<and> buf s' = [] \<and> MultiSet_eq m' [(Label ''a'', 2), (Label ''b c'', 1)]
         \<and> spec_ms_equal m' [(Label ''a'', 2), (Label ''b c'', 1)])"
proof -
  have h: "[(Label ''a'', 2), (Label ''b c'', 1)] \<noteq> []" "plain_labels [(Label ''a'', 2), (Label ''b c'', 1)]"
    "wf_ms [(Label ''a'', 2), (Label ''b c'', 1)]" "counts_ge1 [(Label ''a'', 2), (Label ''b c'', 1)]"
    "occurrences [(Label ''a'', 2), (Label ''b c'', 1)] < 4"
    by (simp_all add: plain_labels_def label_ok_def isspace_def wf_ms_def counts_ge1_def occurrences_def)
  have w: "write_MultiSet [(Label ''a'', 2), (Label ''b c'', 1)] [] = ''{a, a, b c}''"
    by code_simp
  show ?thesis
    using h w read_write_labels[OF h, of "CHR ''?''" "[]" 0 "[]"] by blast
qed

text \<open>
  A label that holds a comma is written as it is and read back as two labels.
\<close>

theorem read_write_counterexample:
  "wf_ms [(Label ''a,b'', 1)] \<and> counts_ge1 [(Label ''a,b'', 1)]
   \<and> write_MultiSet [(Label ''a,b'', 1)] [] = ''{a,b}''
   \<and> read_MultiSet 3 CHR ''?'' \<lparr>buf = write_MultiSet [(Label ''a,b'', 1)] [], eofbit = False, failbit = False\<rparr> 0 []
       = Some (\<lparr>buf = [], eofbit = False, failbit = False\<rparr>, 0, [(Label ''a'', 1), (Label ''b'', 1)])
   \<and> \<not> MultiSet_eq [(Label ''a'', 1), (Label ''b'', 1)] [(Label ''a,b'', 1)]
   \<and> \<not> spec_ms_equal [(Label ''a'', 1), (Label ''b'', 1)] [(Label ''a,b'', 1)]"
  by code_simp

end
